theory Spec2Isabelle
  imports Complex_Main
begin

section \<open>Kaleidoscope front end (toy\_ch2.cpp): lexer and parser\<close>

text \<open>
  The program reads characters from standard input, one at a time, and keeps all of its
  state in file-level statics: \<open>LastChar\<close> (the static local of \<open>gettok\<close>),
  \<open>IdentifierStr\<close>, \<open>NumVal\<close>, \<open>CurTok\<close> and the \<open>std::map\<close> \<open>BinopPrecedence\<close>.
  The model threads records holding these statics, the unread part of standard input
  and the lines written to standard error.

  The C type \<open>double\<close> is kept abstract as the type variable \<open>'v\<close>, and the libc function
  \<open>strtod\<close>, which is not part of the program, is a parameter \<open>strtod :: string \<Rightarrow> 'v\<close> of
  every function that reaches the lexer.
\<close>

subsection \<open>Token codes and character classes\<close>

text \<open>\<open>enum Token\<close>; every other token is the character itself, in \<open>0..255\<close>.\<close>

abbreviation EOF :: int where "EOF \<equiv> - 1"
abbreviation tok_eof :: int where "tok_eof \<equiv> - 1"
abbreviation tok_def :: int where "tok_def \<equiv> - 2"
abbreviation tok_extern :: int where "tok_extern \<equiv> - 3"
abbreviation tok_identifier :: int where "tok_identifier \<equiv> - 4"
abbreviation tok_number :: int where "tok_number \<equiv> - 5"

text \<open>The \<open><cctype>\<close> classifiers in the "C" locale, on an \<open>int\<close> that is \<open>EOF\<close> or a byte.\<close>

definition isspace :: "int \<Rightarrow> bool" where
  "isspace c \<longleftrightarrow> c = 32 \<or> (9 \<le> c \<and> c \<le> 13)"

definition isdigit :: "int \<Rightarrow> bool" where
  "isdigit c \<longleftrightarrow> 48 \<le> c \<and> c \<le> 57"

definition isalpha :: "int \<Rightarrow> bool" where
  "isalpha c \<longleftrightarrow> (65 \<le> c \<and> c \<le> 90) \<or> (97 \<le> c \<and> c \<le> 122)"

definition isalnum :: "int \<Rightarrow> bool" where
  "isalnum c \<longleftrightarrow> isalpha c \<or> isdigit c"

definition isascii :: "int \<Rightarrow> bool" where
  "isascii c \<longleftrightarrow> 0 \<le> c \<and> c \<le> 127"

subsection \<open>Program state\<close>

text \<open>
  The lexer's part of the state: the static local \<open>LastChar\<close> of \<open>gettok\<close>, the unread
  part of standard input, and the two payload variables the lexer fills in.
\<close>

record 'v lexer =
  LastChar :: int
  stdin :: string
  IdentifierStr :: string
  NumVal :: 'v

text \<open>
  The whole state: the lexer, the parser's token buffer \<open>CurTok\<close>, the precedence table,
  and the lines that \<open>LogError\<close> has written to standard error so far. The prompts and
  status lines of the driver loop go to standard error too; the driver is not part of
  this model.
\<close>

record 'v state =
  lexer :: "'v lexer"
  CurTok :: int
  BinopPrecedence :: "char \<rightharpoonup> int"
  stderr :: "string list"

text \<open>\<open>getchar()\<close>: the next byte of standard input as a non-negative \<open>int\<close>, or \<open>EOF\<close>.\<close>

definition getchar :: "'v lexer \<Rightarrow> int \<times> 'v lexer" where
  "getchar s = (case stdin s of [] \<Rightarrow> (EOF, s) | c # cs \<Rightarrow> (of_char c, s\<lparr>stdin := cs\<rparr>))"

text \<open>The statement \<open>LastChar = getchar();\<close>.\<close>

definition next_char :: "'v lexer \<Rightarrow> 'v lexer" where
  "next_char s = (let (c, s1) = getchar s in s1\<lparr>LastChar := c\<rparr>)"

text \<open>Characters not yet consumed by the lexer: unread input plus the buffered \<open>LastChar\<close>.\<close>

definition lexm :: "'v lexer \<Rightarrow> nat" where
  "lexm s = length (stdin s) + (if LastChar s = EOF then 0 else 1)"

lemma of_char_nonneg [simp]: "(0::int) \<le> of_char c"
  by (cases c) simp

lemma of_char_not_EOF [simp]: "(of_char c :: int) \<noteq> - 1"
  using of_char_nonneg [of c] by linarith

lemma lexm_next_char_le: "lexm (next_char s) \<le> lexm s"
  by (simp add: lexm_def next_char_def getchar_def split: list.splits)

lemma lexm_next_char_less: "LastChar s \<noteq> EOF \<Longrightarrow> lexm (next_char s) < lexm s"
  by (simp add: lexm_def next_char_def getchar_def split: list.splits)

subsection \<open>The lexer \<open>gettok\<close>\<close>

text \<open>\<open>while (isspace(LastChar)) LastChar = getchar();\<close>\<close>

function skip_space :: "'v lexer \<Rightarrow> 'v lexer" where
  "skip_space s = (if isspace (LastChar s) then skip_space (next_char s) else s)"
  by pat_completeness auto
termination
  by (relation "measure lexm") (auto simp: isspace_def intro!: lexm_next_char_less)

declare skip_space.simps [simp del]

text \<open>\<open>while (isalnum((LastChar = getchar()))) IdentifierStr += LastChar;\<close>\<close>

function ident_loop :: "'v lexer \<Rightarrow> 'v lexer" where
  "ident_loop s =
     (let s1 = next_char s in
      if isalnum (LastChar s1)
      then ident_loop (s1\<lparr>IdentifierStr := IdentifierStr s1 @ [char_of (LastChar s1)]\<rparr>)
      else s1)"
  by pat_completeness auto
termination
  by (relation "measure (\<lambda>s. length (stdin s))")
     (auto simp: next_char_def getchar_def isalnum_def isalpha_def isdigit_def split: list.splits)

declare ident_loop.simps [simp del]

text \<open>\<open>do { NumStr += LastChar; LastChar = getchar(); } while (isdigit(LastChar) || LastChar == '.');\<close>\<close>

function number_loop :: "string \<Rightarrow> 'v lexer \<Rightarrow> string \<times> 'v lexer" where
  "number_loop NumStr s =
     (let NumStr1 = NumStr @ [char_of (LastChar s)]; s1 = next_char s in
      if isdigit (LastChar s1) \<or> LastChar s1 = of_char CHR ''.''
      then number_loop NumStr1 s1
      else (NumStr1, s1))"
  by pat_completeness auto
termination
  by (relation "measure (\<lambda>(n, s). length (stdin s))")
     (auto simp: next_char_def getchar_def isdigit_def split: list.splits)

declare number_loop.simps [simp del]

text \<open>\<open>do LastChar = getchar(); while (LastChar != EOF && LastChar != '\n' && LastChar != '\r');\<close>\<close>

function comment_loop :: "'v lexer \<Rightarrow> 'v lexer" where
  "comment_loop s =
     (let s1 = next_char s in
      if LastChar s1 \<noteq> EOF \<and> LastChar s1 \<noteq> 10 \<and> LastChar s1 \<noteq> 13
      then comment_loop s1
      else s1)"
  by pat_completeness auto
termination
  by (relation "measure (\<lambda>s. length (stdin s))")
     (auto simp: next_char_def getchar_def split: list.splits)

declare comment_loop.simps [simp del]

lemma lexm_skip_space: "lexm (skip_space s) \<le> lexm s"
proof (induction s rule: skip_space.induct)
  case (1 s)
  show ?case
  proof (cases "isspace (LastChar s)")
    case True
    with 1 have "lexm (skip_space (next_char s)) \<le> lexm (next_char s)" by simp
    with True lexm_next_char_le [of s] show ?thesis
      by (subst skip_space.simps) simp
  next
    case False
    then show ?thesis by (subst skip_space.simps) simp
  qed
qed

lemma lexm_comment_loop_le: "lexm (comment_loop s) \<le> lexm s"
proof (induction s rule: comment_loop.induct)
  case (1 s)
  show ?case
    using 1 lexm_next_char_le [of s]
    by (subst comment_loop.simps) (auto simp: Let_def)
qed

lemma lexm_comment_loop_less: "LastChar s \<noteq> EOF \<Longrightarrow> lexm (comment_loop s) < lexm s"
  using lexm_next_char_less [of s] lexm_comment_loop_le [of "next_char s"]
  by (subst comment_loop.simps) (auto simp: Let_def)

text \<open>
  \<open>gettok\<close> returns the token code; the payload is left in \<open>IdentifierStr\<close> or \<open>NumVal\<close>.
  The comment branch of the source returns \<open>gettok()\<close> when the comment did not end the
  input and otherwise falls through to the end-of-file test; the third and fourth
  branches below are these two paths.
\<close>

function gettok :: "(string \<Rightarrow> 'v) \<Rightarrow> 'v lexer \<Rightarrow> int \<times> 'v lexer" where
  "gettok strtod s0 =
     (let s = skip_space s0 in
      if isalpha (LastChar s) then
        (let s1 = ident_loop (s\<lparr>IdentifierStr := [char_of (LastChar s)]\<rparr>) in
         if IdentifierStr s1 = ''def'' then (tok_def, s1)
         else if IdentifierStr s1 = ''extern'' then (tok_extern, s1)
         else (tok_identifier, s1))
      else if isdigit (LastChar s) \<or> LastChar s = of_char CHR ''.'' then
        (let (NumStr, s1) = number_loop [] s in
         (tok_number, s1\<lparr>NumVal := strtod NumStr\<rparr>))
      else if LastChar s = of_char CHR ''#'' \<and> LastChar (comment_loop s) \<noteq> EOF then
        gettok strtod (comment_loop s)
      else
        (let s1 = (if LastChar s = of_char CHR ''#'' then comment_loop s else s) in
         if LastChar s1 = EOF then (tok_eof, s1)
         else (LastChar s1, next_char s1)))"
  by pat_completeness auto
termination
proof (relation "measure (\<lambda>(f, s). lexm s)", goal_cases)
  case 1
  show ?case by simp
next
  case (2 strtod s0 s)
  then have "LastChar s \<noteq> EOF" by simp
  then have "lexm (comment_loop s) < lexm s" by (rule lexm_comment_loop_less)
  moreover have "lexm s \<le> lexm s0" using 2 lexm_skip_space [of s0] by simp
  ultimately show ?case by simp
qed

declare gettok.simps [simp del]

subsection \<open>Token buffer and operator precedence\<close>

text \<open>\<open>static int getNextToken() { return CurTok = gettok(); }\<close>\<close>

definition getNextToken :: "(string \<Rightarrow> 'v) \<Rightarrow> 'v state \<Rightarrow> int \<times> 'v state" where
  "getNextToken strtod s =
     (let (t, l) = gettok strtod (lexer s) in (t, s\<lparr>lexer := l, CurTok := t\<rparr>))"

text \<open>
  \<open>BinopPrecedence[CurTok]\<close> is \<open>std::map::operator[]\<close>: a key that is absent is inserted
  with the value \<open>0\<close> before it is read, so the lookup can change the table. The key is
  the \<open>int\<close> token converted to \<open>char\<close>, after the \<open>isascii\<close> test.
\<close>

definition map_subscript :: "(char \<rightharpoonup> int) \<Rightarrow> char \<Rightarrow> int \<times> (char \<rightharpoonup> int)" where
  "map_subscript m k = (case m k of None \<Rightarrow> (0, m(k \<mapsto> 0)) | Some p \<Rightarrow> (p, m))"

definition GetTokPrecedence :: "'v state \<Rightarrow> int \<times> 'v state" where
  "GetTokPrecedence s =
     (if \<not> isascii (CurTok s) then (- 1, s)
      else
        (let (TokPrec, m) = map_subscript (BinopPrecedence s) (char_of (CurTok s));
             s1 = s\<lparr>BinopPrecedence := m\<rparr> in
         if TokPrec \<le> 0 then (- 1, s1) else (TokPrec, s1)))"

text \<open>The table as \<open>main\<close> fills it.\<close>

definition main_table :: "char \<rightharpoonup> int" where
  "main_table = [CHR ''<'' \<mapsto> 10, CHR ''+'' \<mapsto> 20, CHR ''-'' \<mapsto> 20, CHR ''*'' \<mapsto> 40]"

text \<open>
  The statics at program start (\<open>LastChar = ' '\<close>, everything else zero-initialised)
  with \<open>inp\<close> on standard input.
\<close>

definition start :: "string \<Rightarrow> ('v::zero) state" where
  "start inp =
     \<lparr>lexer = \<lparr>LastChar = of_char CHR '' '', stdin = inp, IdentifierStr = [], NumVal = 0\<rparr>,
      CurTok = 0, BinopPrecedence = Map.empty, stderr = []\<rparr>"

text \<open>\<open>main\<close> up to the call of \<open>MainLoop\<close>: fill the table, read the first token.\<close>

definition main_init :: "(string \<Rightarrow> 'v) \<Rightarrow> string \<Rightarrow> ('v::zero) state" where
  "main_init strtod inp =
     snd (getNextToken strtod ((start inp)\<lparr>BinopPrecedence := main_table\<rparr>))"

subsection \<open>Basic facts about the lexer\<close>

lemma class_EOF [simp]:
  "\<not> isspace EOF" "\<not> isalpha EOF" "\<not> isdigit EOF" "\<not> isalnum EOF" "\<not> isascii EOF"
  by (simp_all add: isspace_def isalpha_def isdigit_def isalnum_def isascii_def)

lemma lexm_upd [simp]:
  "lexm (l\<lparr>IdentifierStr := a\<rparr>) = lexm l"
  "lexm (l\<lparr>NumVal := b\<rparr>) = lexm l"
  by (simp_all add: lexm_def)

lemma skip_space_not_space: "\<not> isspace (LastChar (skip_space l))"
  by (induction l rule: skip_space.induct) (subst skip_space.simps, simp)

lemma skip_space_id: "\<not> isspace (LastChar l) \<Longrightarrow> skip_space l = l"
  by (subst skip_space.simps) simp

lemma lexm_ident_loop: "lexm (ident_loop l) \<le> lexm (next_char l)"
proof (induction l rule: ident_loop.induct)
  case (1 l)
  show ?case
  proof (cases "isalnum (LastChar (next_char l))")
    case True
    let ?l2 = "(next_char l)\<lparr>IdentifierStr :=
                 IdentifierStr (next_char l) @ [char_of (LastChar (next_char l))]\<rparr>"
    from 1 True have "lexm (ident_loop ?l2) \<le> lexm (next_char ?l2)" by simp
    also have "\<dots> \<le> lexm ?l2" by (rule lexm_next_char_le)
    finally show ?thesis using True by (subst ident_loop.simps) (simp add: Let_def)
  next
    case False
    then show ?thesis by (subst ident_loop.simps) (simp add: Let_def)
  qed
qed

lemma lexm_number_loop: "lexm (snd (number_loop n l)) \<le> lexm (next_char l)"
proof (induction n l rule: number_loop.induct)
  case (1 n l)
  show ?case
  proof (cases "isdigit (LastChar (next_char l)) \<or> LastChar (next_char l) = of_char CHR ''.''")
    case True
    with 1 have "lexm (snd (number_loop (n @ [char_of (LastChar l)]) (next_char l)))
        \<le> lexm (next_char (next_char l))"
      by simp
    also have "\<dots> \<le> lexm (next_char l)" by (rule lexm_next_char_le)
    finally show ?thesis using True by (subst number_loop.simps) (simp add: Let_def)
  next
    case False
    then show ?thesis by (subst number_loop.simps) (simp add: Let_def)
  qed
qed

text \<open>
  One call of \<open>gettok\<close> never gives characters back, consumes at least one character
  unless it reports end of input, and reports end of input only with \<open>LastChar = EOF\<close>.
\<close>

lemma gettok_props:
  "lexm (snd (gettok f l)) \<le> lexm l
   \<and> (fst (gettok f l) \<noteq> tok_eof \<longrightarrow> lexm (snd (gettok f l)) < lexm l)
   \<and> (fst (gettok f l) = tok_eof \<longrightarrow> LastChar (snd (gettok f l)) = EOF)"
proof (induction f l rule: gettok.induct)
  case (1 f l0)
  define l where "l = skip_space l0"
  have le0: "lexm l \<le> lexm l0" unfolding l_def by (rule lexm_skip_space)
  consider (ident) "isalpha (LastChar l)"
    | (num) "\<not> isalpha (LastChar l)" "isdigit (LastChar l) \<or> LastChar l = of_char CHR ''.''"
    | (rec) "\<not> isalpha (LastChar l)" "\<not> (isdigit (LastChar l) \<or> LastChar l = of_char CHR ''.'')"
        "LastChar l = of_char CHR ''#'' \<and> LastChar (comment_loop l) \<noteq> EOF"
    | (other) "\<not> isalpha (LastChar l)" "\<not> (isdigit (LastChar l) \<or> LastChar l = of_char CHR ''.'')"
        "\<not> (LastChar l = of_char CHR ''#'' \<and> LastChar (comment_loop l) \<noteq> EOF)"
    by blast
  then show ?case
  proof cases
    case ident
    let ?l1 = "ident_loop (l\<lparr>IdentifierStr := [char_of (LastChar l)]\<rparr>)"
    have ne: "LastChar l \<noteq> EOF" using ident by auto
    have "lexm ?l1 \<le> lexm (next_char (l\<lparr>IdentifierStr := [char_of (LastChar l)]\<rparr>))"
      by (rule lexm_ident_loop)
    also have "\<dots> < lexm (l\<lparr>IdentifierStr := [char_of (LastChar l)]\<rparr>)"
      using ne by (intro lexm_next_char_less) simp
    finally have lt: "lexm ?l1 < lexm l0" using le0 by simp
    have g: "gettok f l0 = (if IdentifierStr ?l1 = ''def'' then (tok_def, ?l1)
         else if IdentifierStr ?l1 = ''extern'' then (tok_extern, ?l1) else (tok_identifier, ?l1))"
      using ident by (subst gettok.simps) (simp add: Let_def l_def)
    show ?thesis unfolding g using lt by simp
  next
    case num
    obtain NumStr l1 where nl: "number_loop [] l = (NumStr, l1)" by (cases "number_loop [] l")
    have ne: "LastChar l \<noteq> EOF" using num by auto
    have "lexm l1 \<le> lexm (next_char l)" using lexm_number_loop [of "[]" l] nl by simp
    also have "\<dots> < lexm l" using ne by (rule lexm_next_char_less)
    finally have lt: "lexm l1 < lexm l0" using le0 by simp
    have g: "gettok f l0 = (tok_number, l1\<lparr>NumVal := f NumStr\<rparr>)"
      using num nl by (subst gettok.simps) (simp add: Let_def l_def [symmetric])
    show ?thesis unfolding g using lt by simp
  next
    case rec
    have g: "gettok f l0 = gettok f (comment_loop l)"
      using rec by (subst gettok.simps) (simp add: Let_def l_def [symmetric])
    have ih: "lexm (snd (gettok f (comment_loop l))) \<le> lexm (comment_loop l)
       \<and> (fst (gettok f (comment_loop l)) \<noteq> tok_eof
            \<longrightarrow> lexm (snd (gettok f (comment_loop l))) < lexm (comment_loop l))
       \<and> (fst (gettok f (comment_loop l)) = tok_eof
            \<longrightarrow> LastChar (snd (gettok f (comment_loop l))) = EOF)"
      using 1 [OF l_def rec(1) rec(2)] rec(3) by blast
    have "lexm (comment_loop l) \<le> lexm l" by (rule lexm_comment_loop_le)
    then have "lexm (comment_loop l) \<le> lexm l0" using le0 by simp
    then show ?thesis unfolding g using ih by auto
  next
    case other
    define l1 where "l1 = (if LastChar l = of_char CHR ''#'' then comment_loop l else l)"
    have g: "gettok f l0 = (if LastChar l1 = EOF then (tok_eof, l1) else (LastChar l1, next_char l1))"
      using other by (subst gettok.simps) (auto simp add: Let_def l_def [symmetric] l1_def)
    have le1: "lexm l1 \<le> lexm l0" using le0 lexm_comment_loop_le [of l] by (simp add: l1_def)
    show ?thesis
    proof (cases "LastChar l1 = EOF")
      case True
      then show ?thesis unfolding g using le1 by simp
    next
      case False
      have "lexm (next_char l1) < lexm l1" using False by (rule lexm_next_char_less)
      then show ?thesis unfolding g using False le1 by auto
    qed
  qed
qed

lemma gettok_lexm_le: "gettok f l = (t, l1) \<Longrightarrow> lexm l1 \<le> lexm l"
  using gettok_props [of f l] by simp

lemma gettok_lexm_less: "gettok f l = (t, l1) \<Longrightarrow> t \<noteq> tok_eof \<Longrightarrow> lexm l1 < lexm l"
  using gettok_props [of f l] by simp

lemma gettok_eof_LastChar: "gettok f l = (tok_eof, l1) \<Longrightarrow> LastChar l1 = EOF"
  using gettok_props [of f l] by simp

lemma gettok_at_EOF: "LastChar l = EOF \<Longrightarrow> gettok f l = (tok_eof, l)"
  by (subst gettok.simps) (simp add: skip_space_id Let_def)

lemma getNextToken_fst: "fst (getNextToken f s) = CurTok (snd (getNextToken f s))"
  by (simp add: getNextToken_def split: prod.splits)

lemma getNextToken_frame [simp]:
  "BinopPrecedence (snd (getNextToken f s)) = BinopPrecedence s"
  "stderr (snd (getNextToken f s)) = stderr s"
  by (simp_all add: getNextToken_def split: prod.splits)

subsection \<open>The AST\<close>

datatype 'v ExprAST =
    NumberExprAST 'v
  | VariableExprAST string
  | BinaryExprAST char "'v ExprAST" "'v ExprAST"
  | CallExprAST string "'v ExprAST list"

datatype PrototypeAST = PrototypeAST string "string list"

datatype 'v FunctionAST = FunctionAST PrototypeAST "'v ExprAST"

subsection \<open>Error reporting\<close>

text \<open>
  \<open>LogError\<close> prints one line \<open>Error: <Str>\<close> on standard error and returns the null
  pointer, modelled as \<open>None\<close>. The messages of the source that contain apostrophes are
  built with \<open>apostrophe\<close>.
\<close>

definition apostrophe :: char where
  "apostrophe = CHR 0x27"

definition msg_unknown_token :: string where
  "msg_unknown_token = ''unknown token when expecting an expression''"

definition msg_expected_rparen :: string where
  "msg_expected_rparen = ''expected '' @ [apostrophe, CHR '')'', apostrophe]"

definition msg_arg_list :: string where
  "msg_arg_list = ''Expected '' @ [apostrophe, CHR '')'', apostrophe] @ '' or ''
     @ [apostrophe, CHR '','', apostrophe] @ '' in argument list''"

definition msg_proto_name :: string where
  "msg_proto_name = ''Expected function name in prototype''"

definition msg_proto_lparen :: string where
  "msg_proto_lparen = ''Expected '' @ [apostrophe, CHR ''('', apostrophe] @ '' in prototype''"

definition msg_proto_rparen :: string where
  "msg_proto_rparen = ''Expected '' @ [apostrophe, CHR '')'', apostrophe] @ '' in prototype''"

definition LogError :: "string \<Rightarrow> 'v state \<Rightarrow> 'v ExprAST option \<times> 'v state" where
  "LogError Str s = (None, s\<lparr>stderr := stderr s @ [''Error: '' @ Str]\<rparr>)"

definition LogErrorP :: "string \<Rightarrow> 'v state \<Rightarrow> PrototypeAST option \<times> 'v state" where
  "LogErrorP Str s = (let (_, s1) = LogError Str s in (None, s1))"

subsection \<open>The parser\<close>

text \<open>
  The expression parser is mutually recursive and its loops run until a token stops
  them, so every function of the cycle takes a fuel argument that bounds the depth of
  calls and loop iterations still allowed; \<open>None\<close> means the fuel ran out. The inner
  \<open>option\<close> is the returned pointer: \<open>None\<close> for \<open>nullptr\<close>. That enough fuel always
  exists, and that more fuel never changes a result, is proved below (\<open>Parse_total_all\<close>,
  \<open>Parse_mono_all\<close>).

  \<open>ParseArgs\<close> is the \<open>while (true)\<close> loop of \<open>ParseIdentifierExpr\<close>, entered at its top
  with the arguments collected so far; \<open>ParseBinOpRHS\<close> re-enters itself for the next
  iteration of its own loop.
\<close>

definition ParseNumberExpr :: "(string \<Rightarrow> 'v) \<Rightarrow> 'v state \<Rightarrow> 'v ExprAST option \<times> 'v state" where
  "ParseNumberExpr strtod s =
     (let Result = NumberExprAST (NumVal (lexer s)); (_, s1) = getNextToken strtod s
      in (Some Result, s1))"

fun ParsePrimary :: "(string \<Rightarrow> 'v) \<Rightarrow> nat \<Rightarrow> 'v state \<Rightarrow> ('v ExprAST option \<times> 'v state) option"
and ParseParenExpr :: "(string \<Rightarrow> 'v) \<Rightarrow> nat \<Rightarrow> 'v state \<Rightarrow> ('v ExprAST option \<times> 'v state) option"
and ParseIdentifierExpr :: "(string \<Rightarrow> 'v) \<Rightarrow> nat \<Rightarrow> 'v state \<Rightarrow> ('v ExprAST option \<times> 'v state) option"
and ParseArgs :: "(string \<Rightarrow> 'v) \<Rightarrow> nat \<Rightarrow> 'v ExprAST list \<Rightarrow> 'v state
     \<Rightarrow> ('v ExprAST list option \<times> 'v state) option"
and ParseBinOpRHS :: "(string \<Rightarrow> 'v) \<Rightarrow> nat \<Rightarrow> int \<Rightarrow> 'v ExprAST \<Rightarrow> 'v state
     \<Rightarrow> ('v ExprAST option \<times> 'v state) option"
and ParseExpression :: "(string \<Rightarrow> 'v) \<Rightarrow> nat \<Rightarrow> 'v state \<Rightarrow> ('v ExprAST option \<times> 'v state) option"
where
  "ParsePrimary strtod 0 s = None"
| "ParsePrimary strtod (Suc n) s =
     (if CurTok s = tok_identifier then ParseIdentifierExpr strtod n s
      else if CurTok s = tok_number then Some (ParseNumberExpr strtod s)
      else if CurTok s = of_char CHR ''('' then ParseParenExpr strtod n s
      else Some (LogError msg_unknown_token s))"
| "ParseParenExpr strtod 0 s = None"
| "ParseParenExpr strtod (Suc n) s =
     (let (_, s1) = getNextToken strtod s in
      case ParseExpression strtod n s1 of
        None \<Rightarrow> None
      | Some (None, s2) \<Rightarrow> Some (None, s2)
      | Some (Some V, s2) \<Rightarrow>
          if CurTok s2 \<noteq> of_char CHR '')'' then Some (LogError msg_expected_rparen s2)
          else (let (_, s3) = getNextToken strtod s2 in Some (Some V, s3)))"
| "ParseIdentifierExpr strtod 0 s = None"
| "ParseIdentifierExpr strtod (Suc n) s =
     (let IdName = IdentifierStr (lexer s); (_, s1) = getNextToken strtod s in
      if CurTok s1 \<noteq> of_char CHR ''('' then Some (Some (VariableExprAST IdName), s1)
      else
        (let (_, s2) = getNextToken strtod s1 in
         case (if CurTok s2 \<noteq> of_char CHR '')'' then ParseArgs strtod n [] s2
               else Some (Some [], s2)) of
           None \<Rightarrow> None
         | Some (None, s3) \<Rightarrow> Some (None, s3)
         | Some (Some Args, s3) \<Rightarrow>
             (let (_, s4) = getNextToken strtod s3 in
              Some (Some (CallExprAST IdName Args), s4))))"
| "ParseArgs strtod 0 Args s = None"
| "ParseArgs strtod (Suc n) Args s =
     (case ParseExpression strtod n s of
        None \<Rightarrow> None
      | Some (None, s1) \<Rightarrow> Some (None, s1)
      | Some (Some Arg', s1) \<Rightarrow>
          (let Args1 = Args @ [Arg'] in
           if CurTok s1 = of_char CHR '')'' then Some (Some Args1, s1)
           else if CurTok s1 \<noteq> of_char CHR '','' then
             (let (_, s2) = LogError msg_arg_list s1 in Some (None, s2))
           else (let (_, s2) = getNextToken strtod s1 in ParseArgs strtod n Args1 s2)))"
| "ParseBinOpRHS strtod 0 ExprPrec LHS s = None"
| "ParseBinOpRHS strtod (Suc n) ExprPrec LHS s =
     (let (TokPrec, s1) = GetTokPrecedence s in
      if TokPrec < ExprPrec then Some (Some LHS, s1)
      else
        (let BinOp = CurTok s1; (_, s2) = getNextToken strtod s1 in
         case ParsePrimary strtod n s2 of
           None \<Rightarrow> None
         | Some (None, s3) \<Rightarrow> Some (None, s3)
         | Some (Some RHS, s3) \<Rightarrow>
             (let (NextPrec, s4) = GetTokPrecedence s3 in
              case (if TokPrec < NextPrec then ParseBinOpRHS strtod n (TokPrec + 1) RHS s4
                    else Some (Some RHS, s4)) of
                None \<Rightarrow> None
              | Some (None, s5) \<Rightarrow> Some (None, s5)
              | Some (Some RHS1, s5) \<Rightarrow>
                  ParseBinOpRHS strtod n ExprPrec (BinaryExprAST (char_of BinOp) LHS RHS1) s5)))"
| "ParseExpression strtod 0 s = None"
| "ParseExpression strtod (Suc n) s =
     (case ParsePrimary strtod n s of
        None \<Rightarrow> None
      | Some (None, s1) \<Rightarrow> Some (None, s1)
      | Some (Some LHS, s1) \<Rightarrow> ParseBinOpRHS strtod n 0 LHS s1)"

text \<open>\<open>while (getNextToken() == tok_identifier) ArgNames.push_back(IdentifierStr);\<close>\<close>

function proto_args :: "(string \<Rightarrow> 'v) \<Rightarrow> string list \<Rightarrow> 'v state \<Rightarrow> string list \<times> 'v state" where
  "proto_args strtod ArgNames s =
     (let (t, s1) = getNextToken strtod s in
      if t = tok_identifier then proto_args strtod (ArgNames @ [IdentifierStr (lexer s1)]) s1
      else (ArgNames, s1))"
  by pat_completeness auto
termination
proof (relation "measure (\<lambda>(f, a, s). lexm (lexer s))", goal_cases)
  case 1
  show ?case by simp
next
  case (2 strtod ArgNames s x t s1)
  then show ?case
    by (auto simp: getNextToken_def split: prod.splits dest: gettok_lexm_less)
qed

declare proto_args.simps [simp del]

definition ParsePrototype :: "(string \<Rightarrow> 'v) \<Rightarrow> 'v state \<Rightarrow> PrototypeAST option \<times> 'v state" where
  "ParsePrototype strtod s =
     (if CurTok s \<noteq> tok_identifier then LogErrorP msg_proto_name s
      else
        (let FnName = IdentifierStr (lexer s); (_, s1) = getNextToken strtod s in
         if CurTok s1 \<noteq> of_char CHR ''('' then LogErrorP msg_proto_lparen s1
         else
           (let (ArgNames, s2) = proto_args strtod [] s1 in
            if CurTok s2 \<noteq> of_char CHR '')'' then LogErrorP msg_proto_rparen s2
            else (let (_, s3) = getNextToken strtod s2
                  in (Some (PrototypeAST FnName ArgNames), s3)))))"

definition ParseDefinition :: "(string \<Rightarrow> 'v) \<Rightarrow> nat \<Rightarrow> 'v state
    \<Rightarrow> ('v FunctionAST option \<times> 'v state) option" where
  "ParseDefinition strtod n s =
     (let (_, s1) = getNextToken strtod s; (Proto, s2) = ParsePrototype strtod s1 in
      case Proto of
        None \<Rightarrow> Some (None, s2)
      | Some P \<Rightarrow>
          (case ParseExpression strtod n s2 of
             None \<Rightarrow> None
           | Some (None, s3) \<Rightarrow> Some (None, s3)
           | Some (Some E, s3) \<Rightarrow> Some (Some (FunctionAST P E), s3)))"

definition ParseTopLevelExpr :: "(string \<Rightarrow> 'v) \<Rightarrow> nat \<Rightarrow> 'v state
    \<Rightarrow> ('v FunctionAST option \<times> 'v state) option" where
  "ParseTopLevelExpr strtod n s =
     (case ParseExpression strtod n s of
        None \<Rightarrow> None
      | Some (None, s1) \<Rightarrow> Some (None, s1)
      | Some (Some E, s1) \<Rightarrow> Some (Some (FunctionAST (PrototypeAST ''__anon_expr'' []) E), s1))"

definition ParseExtern :: "(string \<Rightarrow> 'v) \<Rightarrow> 'v state \<Rightarrow> PrototypeAST option \<times> 'v state" where
  "ParseExtern strtod s = (let (_, s1) = getNextToken strtod s in ParsePrototype strtod s1)"

subsection \<open>Auxiliary definitions used to state the properties\<close>

text \<open>
  What a caller observes of a parse: the returned pointer, the lines on standard error,
  and the token left in \<open>CurTok\<close>. \<open>None\<close> still means that the fuel ran out.
\<close>

definition outcome :: "('a option \<times> 'v state) option \<Rightarrow> ('a option \<times> string list \<times> int) option" where
  "outcome r = map_option (\<lambda>(a, s). (a, stderr s, CurTok s)) r"

text \<open>
  A stand-in for \<open>strtod\<close> with exact rational values, used where a statement needs a
  concrete conversion function: on a string of digits and dots it reads the longest
  prefix of the form digits, optional dot, digits (at least one digit in all) and
  returns its decimal value, or 0 when there is no such prefix. This is what the C
  function does on these strings, before rounding to a \<open>double\<close>.
\<close>

definition is_digit_char :: "char \<Rightarrow> bool" where
  "is_digit_char c \<longleftrightarrow> isdigit (of_char c)"

definition decimal_value :: "string \<Rightarrow> nat" where
  "decimal_value ds = foldl (\<lambda>a c. 10 * a + (of_char c - 48)) 0 ds"

definition strtod_decimal :: "string \<Rightarrow> rat" where
  "strtod_decimal str =
     (let ip = takeWhile is_digit_char str;
          rest = dropWhile is_digit_char str;
          fp = (case rest of [] \<Rightarrow> []
                | c # r \<Rightarrow> if c = CHR ''.'' then takeWhile is_digit_char r else [])
      in if ip = [] \<and> fp = [] then 0
         else of_nat (decimal_value ip) + of_nat (decimal_value fp) / 10 ^ length fp)"

text \<open>
  The two possible trees over the operands \<open>1\<close>, \<open>2\<close>, \<open>3\<close> and the operators \<open>o1\<close>, \<open>o2\<close>
  in this order: \<open>1 o1 (2 o2 3)\<close> and \<open>(1 o1 2) o2 3\<close>.
\<close>

definition three_operands :: "(string \<Rightarrow> 'v) \<Rightarrow> char \<Rightarrow> char \<Rightarrow> bool \<Rightarrow> 'v ExprAST" where
  "three_operands strtod o1 o2 right_nested =
     (if right_nested
      then BinaryExprAST o1 (NumberExprAST (strtod ''1''))
             (BinaryExprAST o2 (NumberExprAST (strtod ''2'')) (NumberExprAST (strtod ''3'')))
      else BinaryExprAST o2
             (BinaryExprAST o1 (NumberExprAST (strtod ''1'')) (NumberExprAST (strtod ''2'')))
             (NumberExprAST (strtod ''3'')))"

text \<open>
  \<open>zero_extends m0 m\<close>: the table \<open>m\<close> is \<open>m0\<close> plus keys that a lookup inserted with
  the value 0.
\<close>

definition zero_extends :: "(char \<rightharpoonup> int) \<Rightarrow> (char \<rightharpoonup> int) \<Rightarrow> bool" where
  "zero_extends m0 m \<longleftrightarrow> (\<forall>c. m c = m0 c \<or> (m0 c = None \<and> m c = Some 0))"

text \<open>\<open>n\<close> successive calls of \<open>gettok\<close>: the tokens returned and the final lexer state.\<close>

fun gettok_times :: "(string \<Rightarrow> 'v) \<Rightarrow> nat \<Rightarrow> 'v lexer \<Rightarrow> int list \<times> 'v lexer" where
  "gettok_times strtod 0 l = ([], l)"
| "gettok_times strtod (Suc n) l =
     (let (t, l1) = gettok strtod l; (ts, l2) = gettok_times strtod n l1 in (t # ts, l2))"

text \<open>The characters of a number token: \<open>isdigit(LastChar) || LastChar == '.'\<close>.\<close>

definition is_number_char :: "char \<Rightarrow> bool" where
  "is_number_char c \<longleftrightarrow> isdigit (of_char c) \<or> c = CHR ''.''"

text \<open>The characters that end a comment: \<open>'\n'\<close> and \<open>'\r'\<close>.\<close>

definition is_line_end :: "char \<Rightarrow> bool" where
  "is_line_end c \<longleftrightarrow> c = CHR 0x0A \<or> c = CHR 0x0D"

text \<open>
  \<open>lexer_at l rest\<close>: the lexer \<open>l\<close> moved on so that the first character of \<open>rest\<close> is in
  \<open>LastChar\<close> and the others are unread; \<open>LastChar\<close> is \<open>EOF\<close> when \<open>rest\<close> is empty.
\<close>

definition lexer_at :: "'v lexer \<Rightarrow> string \<Rightarrow> 'v lexer" where
  "lexer_at l rest =
     l\<lparr>LastChar := (case rest of [] \<Rightarrow> EOF | r # _ \<Rightarrow> of_char r), stdin := tl rest\<rparr>"

text \<open>
  A token as its consumer sees it: the code, with the payload variable that \<open>gettok\<close>
  documents as filled in for that code.
\<close>

datatype 'v token =
    EndOfInput | KeywordDef | KeywordExtern | Identifier string | NumberLiteral 'v | Symbol int

definition token_view :: "int \<Rightarrow> 'v lexer \<Rightarrow> 'v token" where
  "token_view t l =
     (if t = tok_eof then EndOfInput
      else if t = tok_def then KeywordDef
      else if t = tok_extern then KeywordExtern
      else if t = tok_identifier then Identifier (IdentifierStr l)
      else if t = tok_number then NumberLiteral (NumVal l)
      else Symbol t)"

text \<open>
  All tokens that successive calls of \<open>gettok\<close> deliver before it reports end of input,
  each with the lexer state it left behind.
\<close>

function lex_all :: "(string \<Rightarrow> 'v) \<Rightarrow> 'v lexer \<Rightarrow> (int \<times> 'v lexer) list" where
  "lex_all strtod l =
     (let (t, l1) = gettok strtod l in
      if t = tok_eof then [] else (t, l1) # lex_all strtod l1)"
  by pat_completeness auto
termination
proof (relation "measure (\<lambda>(f, l). lexm l)", goal_cases)
  case 1
  show ?case by simp
next
  case (2 strtod l x t l1)
  then have "gettok strtod l = (t, l1)" "t \<noteq> tok_eof" by simp_all
  then have "lexm l1 < lexm l" by (rule gettok_lexm_less)
  then show ?case by simp
qed

declare lex_all.simps [simp del]

definition tokenize :: "(string \<Rightarrow> 'v) \<Rightarrow> 'v lexer \<Rightarrow> 'v token list" where
  "tokenize strtod l = map (\<lambda>(t, l1). token_view t l1) (lex_all strtod l)"

text \<open>
  What is left to parse, as a number: the characters the lexer has not consumed, plus
  one for the buffered token unless it is \<open>tok_eof\<close>.
\<close>

definition tokm :: "'v state \<Rightarrow> nat" where
  "tokm s = lexm (lexer s) + (if CurTok s = tok_eof then 0 else 1)"

text \<open>
  \<open>rejects msg t\<close>: the token \<open>t\<close> fails the test whose failure the message \<open>msg\<close> reports.
  \<open>failure_report s s1\<close>: between \<open>s\<close> and \<open>s1\<close> exactly one line \<open>Error: msg\<close> was written
  to standard error, and the token in \<open>CurTok\<close> at \<open>s1\<close> is one that \<open>msg\<close> rejects.
  \<open>reported s r s1\<close>: a null result comes with such a report, any other result with no
  output at all.
\<close>

definition rejects :: "string \<Rightarrow> int \<Rightarrow> bool" where
  "rejects msg t =
     (if msg = msg_unknown_token then
        t \<noteq> tok_identifier \<and> t \<noteq> tok_number \<and> t \<noteq> of_char CHR ''(''
      else if msg = msg_expected_rparen then t \<noteq> of_char CHR '')''
      else if msg = msg_arg_list then t \<noteq> of_char CHR '')'' \<and> t \<noteq> of_char CHR '',''
      else if msg = msg_proto_name then t \<noteq> tok_identifier
      else if msg = msg_proto_lparen then t \<noteq> of_char CHR ''(''
      else if msg = msg_proto_rparen then t \<noteq> of_char CHR '')''
      else False)"

definition failure_report :: "'v state \<Rightarrow> 'v state \<Rightarrow> bool" where
  "failure_report s s1 \<longleftrightarrow>
     (\<exists>msg. stderr s1 = stderr s @ [''Error: '' @ msg] \<and> rejects msg (CurTok s1))"

definition reported :: "'v state \<Rightarrow> 'a option \<Rightarrow> 'v state \<Rightarrow> bool" where
  "reported s r s1 \<longleftrightarrow>
     (case r of None \<Rightarrow> failure_report s s1 | Some _ \<Rightarrow> stderr s1 = stderr s)"

text \<open>\<open>ParsePrototype\<close> needs no fuel; this wraps its result like those of the others.\<close>

definition ParsePrototype_fuel :: "(string \<Rightarrow> 'v) \<Rightarrow> 'v state
    \<Rightarrow> (PrototypeAST option \<times> 'v state) option" where
  "ParsePrototype_fuel strtod s = Some (ParsePrototype strtod s)"

text \<open>
  The tokens still ahead of the parser: the buffered \<open>CurTok\<close> followed by everything the
  lexer will deliver, up to but without \<open>tok_eof\<close>. Only the codes matter here.
\<close>

definition toks :: "(string \<Rightarrow> 'v) \<Rightarrow> 'v state \<Rightarrow> int list" where
  "toks strtod s =
     (if CurTok s = tok_eof then [] else CurTok s # map fst (lex_all strtod (lexer s)))"

text \<open>
  \<open>is_binop m t\<close>: the token \<open>t\<close> is a binary operator under the table \<open>m\<close>, that is,
  \<open>GetTokPrecedence\<close> returns a positive precedence for it. \<open>binops s\<close> is this set for the
  table of state \<open>s\<close>; lookups insert zero entries but never change it.
\<close>

definition is_binop :: "(char \<rightharpoonup> int) \<Rightarrow> int \<Rightarrow> bool" where
  "is_binop m t \<longleftrightarrow> isascii t \<and> (case m (char_of t) of None \<Rightarrow> False | Some p \<Rightarrow> 0 < p)"

definition binops :: "'v state \<Rightarrow> int \<Rightarrow> bool" where
  "binops s = is_binop (BinopPrecedence s)"

text \<open>
  The grammar of the header comment of the source, over token codes, with the commas that
  the code requires between call arguments. \<open>ops\<close> is the set of operator tokens.
\<close>

inductive primary_toks :: "(int \<Rightarrow> bool) \<Rightarrow> int list \<Rightarrow> bool"
  and binoprhs_toks :: "(int \<Rightarrow> bool) \<Rightarrow> int list \<Rightarrow> bool"
  and expression_toks :: "(int \<Rightarrow> bool) \<Rightarrow> int list \<Rightarrow> bool"
  and args_toks :: "(int \<Rightarrow> bool) \<Rightarrow> int list \<Rightarrow> bool"
  for ops :: "int \<Rightarrow> bool"
where
  number: "primary_toks ops [tok_number]"
| variable: "primary_toks ops [tok_identifier]"
| call_empty: "primary_toks ops [tok_identifier, of_char CHR ''('', of_char CHR '')'']"
| call: "args_toks ops as \<Longrightarrow>
         primary_toks ops ([tok_identifier, of_char CHR ''(''] @ as @ [of_char CHR '')''])"
| paren: "expression_toks ops e \<Longrightarrow> primary_toks ops (of_char CHR ''('' # e @ [of_char CHR '')''])"
| rhs_done: "binoprhs_toks ops []"
| rhs_more: "ops t \<Longrightarrow> primary_toks ops p \<Longrightarrow> binoprhs_toks ops r \<Longrightarrow>
             binoprhs_toks ops (t # p @ r)"
| expression: "primary_toks ops p \<Longrightarrow> binoprhs_toks ops r \<Longrightarrow> expression_toks ops (p @ r)"
| args_last: "expression_toks ops e \<Longrightarrow> args_toks ops e"
| args_more: "expression_toks ops e \<Longrightarrow> args_toks ops r \<Longrightarrow>
              args_toks ops (e @ of_char CHR '','' # r)"

definition prototype_toks :: "int list \<Rightarrow> bool" where
  "prototype_toks ts \<longleftrightarrow>
     (\<exists>k. ts = [tok_identifier, of_char CHR ''(''] @ replicate k tok_identifier @ [of_char CHR '')''])"

definition definition_toks :: "(int \<Rightarrow> bool) \<Rightarrow> int list \<Rightarrow> bool" where
  "definition_toks ops ts \<longleftrightarrow>
     (\<exists>p e. prototype_toks p \<and> expression_toks ops e \<and> ts = tok_def # p @ e)"

definition extern_toks :: "int list \<Rightarrow> bool" where
  "extern_toks ts \<longleftrightarrow> (\<exists>p. prototype_toks p \<and> ts = tok_extern # p)"

text \<open>
  \<open>spans strtod g s s1\<close>: between \<open>s\<close> and \<open>s1\<close> the parser consumed a token sequence of
  the language \<open>g\<close>, and what is ahead at \<open>s1\<close> (its \<open>CurTok\<close> first) is exactly the rest of
  what was ahead at \<open>s\<close>.
\<close>

definition spans :: "(string \<Rightarrow> 'v) \<Rightarrow> (int list \<Rightarrow> bool) \<Rightarrow> 'v state \<Rightarrow> 'v state \<Rightarrow> bool" where
  "spans strtod g s s1 \<longleftrightarrow> (\<exists>ts. g ts \<and> toks strtod s = ts @ toks strtod s1)"

text \<open>
  A chain of operators with the operand \<open>1\<close> everywhere: \<open>''1'' @ chain_input os\<close> is the
  text \<open>1 c1 1 c2 1 ...\<close> for the operator characters \<open>os = [c1, c2, ...]\<close>, and
  \<open>chain_tree strtod lhs os\<close> is the left-nested tree that starts from \<open>lhs\<close>.
  \<open>chain_state\<close> and \<open>chain_operand_state\<close> are the states of the program while it parses
  such a chain: standing on the next operator, and standing on the operand after it.
\<close>

definition chain_input :: "char list \<Rightarrow> string" where
  "chain_input os = concat (map (\<lambda>c. [c, CHR ''1'']) os)"

definition chain_tree :: "(string \<Rightarrow> 'v) \<Rightarrow> 'v ExprAST \<Rightarrow> char list \<Rightarrow> 'v ExprAST" where
  "chain_tree strtod lhs os =
     foldl (\<lambda>l c. BinaryExprAST c l (NumberExprAST (strtod ''1''))) lhs os"

definition chain_state :: "(string \<Rightarrow> 'v) \<Rightarrow> char list \<Rightarrow> 'v state" where
  "chain_state strtod os =
     \<lparr>lexer = \<lparr>LastChar = (case os of [] \<Rightarrow> EOF | _ # _ \<Rightarrow> of_char CHR ''1''),
               stdin = chain_input (tl os), IdentifierStr = [], NumVal = strtod ''1''\<rparr>,
      CurTok = (case os of [] \<Rightarrow> tok_eof | c # _ \<Rightarrow> of_char c),
      BinopPrecedence = main_table, stderr = []\<rparr>"

definition chain_operand_state :: "(string \<Rightarrow> 'v) \<Rightarrow> char list \<Rightarrow> 'v state" where
  "chain_operand_state strtod os =
     \<lparr>lexer = lexer_at \<lparr>LastChar = of_char CHR ''1'', stdin = chain_input os, IdentifierStr = [],
                        NumVal = strtod ''1''\<rparr> (chain_input os),
      CurTok = tok_number, BinopPrecedence = main_table, stderr = []\<rparr>"

text \<open>
  \<open>op_prec m c\<close> is the precedence \<open>GetTokPrecedence\<close> returns for the operator character \<open>c\<close>
  under the table \<open>m\<close>, and \<open>precs s\<close> is this function for the table of state \<open>s\<close>.
  \<open>root_prec pr e\<close> is the precedence of the operator at the root of \<open>e\<close>, if \<open>e\<close> is a binary
  expression. A tree is \<open>wellnested\<close> when at every binary node the operator at the root of
  the right operand has strictly higher precedence than the node's own, and the operator
  at the root of the left operand has precedence at least as high. It has
  \<open>no_equal_right_nesting\<close> when no binary node has a right operand whose root operator has
  the node's own precedence.
\<close>

definition op_prec :: "(char \<rightharpoonup> int) \<Rightarrow> char \<Rightarrow> int" where
  "op_prec m c = (case m c of None \<Rightarrow> - 1 | Some p \<Rightarrow> if p \<le> 0 then - 1 else p)"

definition precs :: "'v state \<Rightarrow> char \<Rightarrow> int" where
  "precs s = op_prec (BinopPrecedence s)"

fun root_prec :: "(char \<Rightarrow> int) \<Rightarrow> 'v ExprAST \<Rightarrow> int option" where
  "root_prec pr (BinaryExprAST c l r) = Some (pr c)"
| "root_prec pr (NumberExprAST v) = None"
| "root_prec pr (VariableExprAST x) = None"
| "root_prec pr (CallExprAST x as) = None"

fun wellnested :: "(char \<Rightarrow> int) \<Rightarrow> 'v ExprAST \<Rightarrow> bool" where
  "wellnested pr (BinaryExprAST c l r) =
     (wellnested pr l \<and> wellnested pr r
      \<and> (case root_prec pr l of None \<Rightarrow> True | Some q \<Rightarrow> pr c \<le> q)
      \<and> (case root_prec pr r of None \<Rightarrow> True | Some q \<Rightarrow> pr c < q))"
| "wellnested pr (NumberExprAST v) = True"
| "wellnested pr (VariableExprAST x) = True"
| "wellnested pr (CallExprAST x as) = True"

fun no_equal_right_nesting :: "(char \<Rightarrow> int) \<Rightarrow> 'v ExprAST \<Rightarrow> bool" where
  "no_equal_right_nesting pr (BinaryExprAST c l r) =
     (no_equal_right_nesting pr l \<and> no_equal_right_nesting pr r
      \<and> (case root_prec pr r of None \<Rightarrow> True | Some q \<Rightarrow> q \<noteq> pr c))"
| "no_equal_right_nesting pr (NumberExprAST v) = True"
| "no_equal_right_nesting pr (VariableExprAST x) = True"
| "no_equal_right_nesting pr (CallExprAST x as) = True"

section \<open>Properties\<close>

subsection \<open>More fuel never changes a result\<close>

lemma Parse_mono_all:
  "(\<forall>s x. ParsePrimary f n s = Some x \<longrightarrow> ParsePrimary f (n + k) s = Some x)
   \<and> (\<forall>s x. ParseParenExpr f n s = Some x \<longrightarrow> ParseParenExpr f (n + k) s = Some x)
   \<and> (\<forall>s x. ParseIdentifierExpr f n s = Some x \<longrightarrow> ParseIdentifierExpr f (n + k) s = Some x)
   \<and> (\<forall>a s y. ParseArgs f n a s = Some y \<longrightarrow> ParseArgs f (n + k) a s = Some y)
   \<and> (\<forall>p e s x. ParseBinOpRHS f n p e s = Some x \<longrightarrow> ParseBinOpRHS f (n + k) p e s = Some x)
   \<and> (\<forall>s x. ParseExpression f n s = Some x \<longrightarrow> ParseExpression f (n + k) s = Some x)"
proof (induction n)
  case 0
  show ?case by simp
next
  case (Suc n)
  then have P: "\<And>s x. ParsePrimary f n s = Some x \<Longrightarrow> ParsePrimary f (n + k) s = Some x"
    and R: "\<And>s x. ParseParenExpr f n s = Some x \<Longrightarrow> ParseParenExpr f (n + k) s = Some x"
    and I: "\<And>s x. ParseIdentifierExpr f n s = Some x \<Longrightarrow> ParseIdentifierExpr f (n + k) s = Some x"
    and A: "\<And>a s y. ParseArgs f n a s = Some y \<Longrightarrow> ParseArgs f (n + k) a s = Some y"
    and B: "\<And>p e s x. ParseBinOpRHS f n p e s = Some x \<Longrightarrow> ParseBinOpRHS f (n + k) p e s = Some x"
    and E: "\<And>s x. ParseExpression f n s = Some x \<Longrightarrow> ParseExpression f (n + k) s = Some x"
    by blast+
  have 1: "ParsePrimary f (Suc n + k) s = Some x" if "ParsePrimary f (Suc n) s = Some x" for s x
    using that by (auto simp: I R split: if_splits)
  have 2: "ParseParenExpr f (Suc n + k) s = Some x" if "ParseParenExpr f (Suc n) s = Some x" for s x
    using that by (auto simp: E split: if_splits option.splits prod.splits)
  have 3: "ParseIdentifierExpr f (Suc n + k) s = Some x"
    if "ParseIdentifierExpr f (Suc n) s = Some x" for s x
    using that by (auto simp: A Let_def split: if_splits option.splits prod.splits)
  have 4: "ParseArgs f (Suc n + k) a s = Some y" if "ParseArgs f (Suc n) a s = Some y" for a s y
    using that by (auto simp: A E Let_def split: if_splits option.splits prod.splits)
  have 5: "ParseBinOpRHS f (Suc n + k) p e s = Some x"
    if "ParseBinOpRHS f (Suc n) p e s = Some x" for p e s x
    using that by (auto simp: B P Let_def split: if_splits option.splits prod.splits)
  have 6: "ParseExpression f (Suc n + k) s = Some x" if "ParseExpression f (Suc n) s = Some x" for s x
    using that by (auto simp: B P Let_def split: if_splits option.splits prod.splits)
  show ?case using 1 2 3 4 5 6 by blast
qed

lemma ParseExpression_mono:
  "ParseExpression f n s = Some x \<Longrightarrow> n \<le> m \<Longrightarrow> ParseExpression f m s = Some x"
proof -
  assume a: "ParseExpression f n s = Some x" and le: "n \<le> m"
  have "\<forall>s x. ParseExpression f n s = Some x \<longrightarrow> ParseExpression f (n + (m - n)) s = Some x"
    using Parse_mono_all [of f n "m - n"] by blast
  with a have "ParseExpression f (n + (m - n)) s = Some x" by blast
  with le show ?thesis by simp
qed

lemma ParseBinOpRHS_mono:
  "ParseBinOpRHS f n p e s = Some x \<Longrightarrow> n \<le> m \<Longrightarrow> ParseBinOpRHS f m p e s = Some x"
proof -
  assume a: "ParseBinOpRHS f n p e s = Some x" and le: "n \<le> m"
  have "\<forall>p e s x. ParseBinOpRHS f n p e s = Some x
          \<longrightarrow> ParseBinOpRHS f (n + (m - n)) p e s = Some x"
    using Parse_mono_all [of f n "m - n"] by blast
  with a have "ParseBinOpRHS f (n + (m - n)) p e s = Some x" by blast
  with le show ?thesis by simp
qed

lemma outcome_ParseExpression_mono:
  assumes "outcome (ParseExpression f n s) = Some y" "n \<le> m"
  shows "outcome (ParseExpression f m s) = Some y"
proof -
  from assms(1) obtain x where x: "ParseExpression f n s = Some x"
    by (cases "ParseExpression f n s") (simp_all add: outcome_def)
  from ParseExpression_mono [OF x assms(2)] assms(1) x show ?thesis by simp
qed

subsection \<open>Operator precedence lookup\<close>

lemma char_of_ascii_eq: "isascii t \<Longrightarrow> char_of t = c \<longleftrightarrow> t = of_char c"
  by (auto simp: isascii_def char_of_eq_iff take_bit_eq_mod)

lemma GetTokPrecedence_CurTok [simp]: "CurTok (snd (GetTokPrecedence s)) = CurTok s"
  by (simp add: GetTokPrecedence_def map_subscript_def Let_def split: option.splits)

lemma GetTokPrecedence_lexer [simp]: "lexer (snd (GetTokPrecedence s)) = lexer s"
  by (simp add: GetTokPrecedence_def map_subscript_def Let_def split: option.splits)

lemma GetTokPrecedence_stderr [simp]: "stderr (snd (GetTokPrecedence s)) = stderr s"
  by (simp add: GetTokPrecedence_def map_subscript_def Let_def split: option.splits)

lemma GetTokPrecedence_fst:
  "fst (GetTokPrecedence s) =
     (if isascii (CurTok s) then
        (case BinopPrecedence s (char_of (CurTok s)) of
           None \<Rightarrow> - 1 | Some p \<Rightarrow> if p \<le> 0 then - 1 else p)
      else - 1)"
  by (simp add: GetTokPrecedence_def map_subscript_def Let_def split: option.splits)

lemma GetTokPrecedence_table:
  "BinopPrecedence (snd (GetTokPrecedence s)) =
     (if isascii (CurTok s) \<and> BinopPrecedence s (char_of (CurTok s)) = None
      then (BinopPrecedence s)(char_of (CurTok s) \<mapsto> 0) else BinopPrecedence s)"
  by (auto simp add: GetTokPrecedence_def map_subscript_def Let_def split: option.splits)

lemma GetTokPrecedence_again:
  "fst (GetTokPrecedence (snd (GetTokPrecedence s))) = fst (GetTokPrecedence s)"
  by (simp add: GetTokPrecedence_fst GetTokPrecedence_table split: option.splits)

lemma GetTokPrecedence_stable:
  "snd (GetTokPrecedence (snd (GetTokPrecedence s))) = snd (GetTokPrecedence s)"
  by (simp add: GetTokPrecedence_def map_subscript_def Let_def split: option.splits)

lemma zero_extends_refl [simp]: "zero_extends m m"
  by (simp add: zero_extends_def)

lemma zero_extends_GetTokPrecedence:
  assumes "zero_extends m0 (BinopPrecedence s)"
  shows "zero_extends m0 (BinopPrecedence (snd (GetTokPrecedence s)))"
  unfolding zero_extends_def
proof
  fix c
  from assms have "BinopPrecedence s c = m0 c \<or> m0 c = None \<and> BinopPrecedence s c = Some 0"
    by (simp add: zero_extends_def)
  then show "BinopPrecedence (snd (GetTokPrecedence s)) c = m0 c \<or>
     m0 c = None \<and> BinopPrecedence (snd (GetTokPrecedence s)) c = Some 0"
    unfolding GetTokPrecedence_table by (cases "c = char_of (CurTok s)") auto
qed

lemma main_table_apply:
  "main_table c = (if c = CHR ''<'' then Some 10 else if c = CHR ''+'' \<or> c = CHR ''-'' then Some 20
     else if c = CHR ''*'' then Some 40 else None)"
  by (simp add: main_table_def)

lemma main_table_prec:
  assumes "zero_extends main_table (BinopPrecedence s)"
  shows "fst (GetTokPrecedence s) =
     (if CurTok s = of_char CHR ''<'' then 10
      else if CurTok s = of_char CHR ''+'' \<or> CurTok s = of_char CHR ''-'' then 20
      else if CurTok s = of_char CHR ''*'' then 40 else - 1)"
proof (cases "isascii (CurTok s)")
  case False
  then have "CurTok s \<noteq> 60" "CurTok s \<noteq> 43" "CurTok s \<noteq> 45" "CurTok s \<noteq> 42"
    by (auto simp: isascii_def)
  with False show ?thesis by (simp add: GetTokPrecedence_fst)
next
  case True
  let ?k = "char_of (CurTok s)"
  from assms have d: "BinopPrecedence s ?k = main_table ?k
      \<or> (main_table ?k = None \<and> BinopPrecedence s ?k = Some 0)"
    by (simp add: zero_extends_def)
  have k1: "?k = CHR ''<'' \<longleftrightarrow> CurTok s = 60"
    using char_of_ascii_eq [OF True, of "CHR ''<''"] by simp
  have k2: "?k = CHR ''+'' \<longleftrightarrow> CurTok s = 43"
    using char_of_ascii_eq [OF True, of "CHR ''+''"] by simp
  have k3: "?k = CHR ''-'' \<longleftrightarrow> CurTok s = 45"
    using char_of_ascii_eq [OF True, of "CHR ''-''"] by simp
  have k4: "?k = CHR ''*'' \<longleftrightarrow> CurTok s = 42"
    using char_of_ascii_eq [OF True, of "CHR ''*''"] by simp
  have m: "main_table ?k = (if CurTok s = 60 then Some 10
     else if CurTok s = 43 \<or> CurTok s = 45 then Some 20
     else if CurTok s = 42 then Some 40 else None)"
    unfolding main_table_apply k1 k2 k3 k4 ..
  have f: "fst (GetTokPrecedence s) = (case BinopPrecedence s ?k of
           None \<Rightarrow> - 1 | Some p \<Rightarrow> if p \<le> 0 then - 1 else p)"
    using True by (simp add: GetTokPrecedence_fst)
  from d show ?thesis
  proof
    assume "BinopPrecedence s ?k = main_table ?k"
    then show ?thesis unfolding f m by simp
  next
    assume "main_table ?k = None \<and> BinopPrecedence s ?k = Some 0"
    then show ?thesis unfolding f m by (simp split: if_splits)
  qed
qed

subsection \<open>End of input\<close>

lemma gettok_times_at_EOF: "LastChar l = EOF \<Longrightarrow> gettok_times f n l = (replicate n tok_eof, l)"
  by (induction n) (simp_all add: gettok_at_EOF)

subsection \<open>Evaluating the parser on three operands\<close>

lemma two_operators_eval:
  fixes strtod :: "string \<Rightarrow> 'v::{zero,equal}"
  assumes "o1 \<in> {CHR ''<'', CHR ''+'', CHR ''-'', CHR ''*''}"
    and "o2 \<in> {CHR ''<'', CHR ''+'', CHR ''-'', CHR ''*''}"
  shows "outcome (ParseExpression strtod 8 (main_init strtod (''1'' @ [o1] @ ''2'' @ [o2] @ ''3''))) =
     Some (Some (three_operands strtod o1 o2 (the (main_table o1) < the (main_table o2))), [], tok_eof)"
  using assms by (elim insertE emptyE; hypsubst; code_simp)

lemma main_table_dom:
  "main_table c = Some p \<Longrightarrow> c \<in> {CHR ''<'', CHR ''+'', CHR ''-'', CHR ''*''}"
  by (auto simp: main_table_def split: if_splits)

lemma strtod_decimal_123:
  "strtod_decimal ''1'' = 1" "strtod_decimal ''2'' = 2" "strtod_decimal ''3'' = 3"
  by code_simp+

subsection \<open>Number tokens\<close>

lemma of_char_dot: "(of_char c :: int) = 46 \<longleftrightarrow> c = CHR ''.''"
  using of_char_eq_iff [of c "CHR ''.''", where ?'a = int] by simp

lemma is_number_char_iff:
  "is_number_char c \<longleftrightarrow> isdigit (of_char c) \<or> (of_char c :: int) = 46"
  by (simp add: is_number_char_def of_char_dot)

lemma next_char_at: "stdin l = rest \<Longrightarrow> next_char l = lexer_at l rest"
  by (cases rest) (auto simp: next_char_def getchar_def lexer_at_def)

lemma lexer_at_simps [simp]:
  "LastChar (lexer_at l []) = EOF"
  "LastChar (lexer_at l (r # rs)) = of_char r"
  "stdin (lexer_at l rest) = tl rest"
  "IdentifierStr (lexer_at l rest) = IdentifierStr l"
  "NumVal (lexer_at l rest) = NumVal l"
  "lexer_at (lexer_at l a) b = lexer_at l b"
  "lexer_at (l\<lparr>IdentifierStr := i\<rparr>) b = (lexer_at l b)\<lparr>IdentifierStr := i\<rparr>"
  by (simp_all add: lexer_at_def)

lemma number_loop_run:
  assumes "\<forall>c\<in>set cs. is_number_char c" "rest = [] \<or> \<not> is_number_char (hd rest)"
    "stdin l = cs @ rest"
  shows "number_loop acc l = (acc @ [char_of (LastChar l)] @ cs, lexer_at l rest)"
  using assms
proof (induction cs arbitrary: acc l)
  case Nil
  then have n: "next_char l = lexer_at l rest" by (simp add: next_char_at)
  from Nil(2) have "\<not> (isdigit (LastChar (lexer_at l rest)) \<or> LastChar (lexer_at l rest) = 46)"
    by (cases rest) (auto simp: is_number_char_iff)
  then show ?case by (subst number_loop.simps) (simp add: n Let_def)
next
  case (Cons c cs)
  then have n: "next_char l = lexer_at l (c # cs @ rest)" by (simp add: next_char_at)
  from Cons(2) have c: "isdigit (of_char c) \<or> (of_char c :: int) = 46"
    by (simp add: is_number_char_iff)
  have "number_loop (acc @ [char_of (LastChar l)]) (lexer_at l (c # cs @ rest))
      = ((acc @ [char_of (LastChar l)]) @ [char_of (LastChar (lexer_at l (c # cs @ rest)))] @ cs,
         lexer_at (lexer_at l (c # cs @ rest)) rest)"
    using Cons(2,3) by (intro Cons.IH) simp_all
  then show ?case using c by (subst number_loop.simps) (simp add: n Let_def)
qed

lemma number_char_class: "is_number_char c \<Longrightarrow> \<not> isspace (of_char c) \<and> \<not> isalpha (of_char c)"
  by (auto simp: is_number_char_iff isdigit_def isspace_def isalpha_def)

lemma gettok_number_run:
  assumes "LastChar l = of_char c" "is_number_char c" "\<forall>c\<in>set cs. is_number_char c"
    "rest = [] \<or> \<not> is_number_char (hd rest)" "stdin l = cs @ rest"
  shows "gettok strtod l = (tok_number, (lexer_at l rest)\<lparr>NumVal := strtod (c # cs)\<rparr>)"
proof -
  have sk: "skip_space l = l" using assms(1,2) number_char_class [of c] by (simp add: skip_space_id)
  have nl: "number_loop [] l = ([c] @ cs, lexer_at l rest)"
    using number_loop_run [OF assms(3,4,5), of "[]"] assms(1) by simp
  show ?thesis
    using assms(1,2) number_char_class [of c]
    by (subst gettok.simps) (simp add: sk nl Let_def is_number_char_iff)
qed

lemma skip_space_start:
  assumes "LastChar l = 32" "stdin l = c # cs" "\<not> isspace (of_char c)"
  shows "skip_space l = lexer_at l (c # cs)"
proof -
  have "skip_space l = skip_space (next_char l)"
    using assms(1) by (subst skip_space.simps) (simp add: isspace_def)
  also have "next_char l = lexer_at l (c # cs)" using assms(2) by (simp add: next_char_at)
  also have "skip_space (lexer_at l (c # cs)) = lexer_at l (c # cs)"
    using assms(3) by (intro skip_space_id) simp
  finally show ?thesis .
qed

lemma gettok_start_number_run:
  assumes "LastChar l = 32" "stdin l = c # cs @ rest" "is_number_char c" "\<forall>c\<in>set cs. is_number_char c"
    "rest = [] \<or> \<not> is_number_char (hd rest)"
  shows "gettok strtod l = (tok_number, (lexer_at l rest)\<lparr>NumVal := strtod (c # cs)\<rparr>)"
proof -
  have sk: "skip_space l = lexer_at l (c # cs @ rest)"
    using assms(1,2,3) number_char_class [of c] by (intro skip_space_start) simp_all
  have "gettok strtod l = gettok strtod (skip_space l)"
    by (subst (1 2) gettok.simps) (simp add: skip_space_id [OF skip_space_not_space])
  also have "\<dots> = (tok_number, (lexer_at (lexer_at l (c # cs @ rest)) rest)\<lparr>NumVal := strtod (c # cs)\<rparr>)"
    unfolding sk using assms(3,4,5) by (intro gettok_number_run) simp_all
  finally show ?thesis by simp
qed

lemma main_init_number_run:
  fixes strtod :: "string \<Rightarrow> 'v::zero"
  assumes "run \<noteq> []" "\<forall>c\<in>set run. is_number_char c"
  shows "main_init strtod run =
     \<lparr>lexer = \<lparr>LastChar = EOF, stdin = [], IdentifierStr = [], NumVal = strtod run\<rparr>,
      CurTok = tok_number, BinopPrecedence = main_table, stderr = []\<rparr>"
proof -
  from assms obtain c cs where run: "run = c # cs" by (cases run) auto
  have "gettok strtod (lexer ((start run :: 'v state)\<lparr>BinopPrecedence := main_table\<rparr>)) =
     (tok_number, (lexer_at (lexer ((start run :: 'v state)\<lparr>BinopPrecedence := main_table\<rparr>)) [])
        \<lparr>NumVal := strtod (c # cs)\<rparr>)"
    using assms(2) by (intro gettok_start_number_run) (simp_all add: start_def run)
  then show ?thesis
    by (simp add: main_init_def getNextToken_def start_def lexer_at_def run)
qed

lemma ParseExpression_number:
  assumes "CurTok s = tok_number" "LastChar (lexer s) = EOF"
  shows "ParseExpression strtod (Suc (Suc (Suc k))) s =
     Some (Some (NumberExprAST (NumVal (lexer s))), s\<lparr>CurTok := tok_eof\<rparr>)"
proof -
  have g: "getNextToken strtod s = (tok_eof, s\<lparr>CurTok := tok_eof\<rparr>)"
    using assms(2) by (simp add: getNextToken_def gettok_at_EOF)
  have p: "GetTokPrecedence (s\<lparr>CurTok := tok_eof\<rparr>) = (- 1, s\<lparr>CurTok := tok_eof\<rparr>)"
    by (simp add: GetTokPrecedence_def)
  show ?thesis using assms(1) by (simp add: ParseNumberExpr_def g p Let_def)
qed

lemma strtod_decimal_examples:
  "strtod_decimal ''42'' = 42" "strtod_decimal ''3.14'' = 314 / 100" "strtod_decimal ''..'' = 0"
  by code_simp+

subsection \<open>Comments\<close>

lemma of_char_line_end: "(of_char c :: int) = 10 \<or> (of_char c :: int) = 13 \<longleftrightarrow> is_line_end c"
  using of_char_eq_iff [of c "CHR 0x0A", where ?'a = int]
    of_char_eq_iff [of c "CHR 0x0D", where ?'a = int]
  by (simp add: is_line_end_def)

lemma comment_loop_run:
  assumes "\<forall>c\<in>set cs. \<not> is_line_end c" "rest = [] \<or> is_line_end (hd rest)" "stdin l = cs @ rest"
  shows "comment_loop l = lexer_at l rest"
  using assms
proof (induction cs arbitrary: l)
  case Nil
  then have n: "next_char l = lexer_at l rest" by (simp add: next_char_at)
  from Nil(2) have k: "(LastChar (lexer_at l rest) \<noteq> EOF \<and> LastChar (lexer_at l rest) \<noteq> 10
      \<and> LastChar (lexer_at l rest) \<noteq> 13) = False"
    using of_char_line_end [of "hd rest"] by (cases rest) auto
  show ?case by (subst comment_loop.simps) (simp only: n Let_def k if_False)
next
  case (Cons c cs)
  then have n: "next_char l = lexer_at l (c # cs @ rest)" by (simp add: next_char_at)
  from Cons(2) have c: "(of_char c :: int) \<noteq> 10 \<and> (of_char c :: int) \<noteq> 13"
    using of_char_line_end [of c] by simp
  have "comment_loop (lexer_at l (c # cs @ rest)) = lexer_at (lexer_at l (c # cs @ rest)) rest"
    using Cons(2,3) by (intro Cons.IH) simp_all
  then show ?case using c by (subst comment_loop.simps) (simp add: n Let_def)
qed

lemma gettok_comment:
  assumes "LastChar l = of_char CHR ''#''" "\<forall>c\<in>set cs. \<not> is_line_end c"
    "rest = [] \<or> is_line_end (hd rest)" "stdin l = cs @ rest"
  shows "gettok strtod l =
     (if rest = [] then (tok_eof, lexer_at l []) else gettok strtod (lexer_at l rest))"
proof -
  have sk: "skip_space l = l" using assms(1) by (simp add: skip_space_id isspace_def)
  have cl: "comment_loop l = lexer_at l rest" using assms(2,3,4) by (rule comment_loop_run)
  have cls: "\<not> isalpha (LastChar l)" "\<not> isdigit (LastChar l)" "LastChar l \<noteq> 46"
    using assms(1) by (simp_all add: isalpha_def isdigit_def)
  show ?thesis
  proof (cases rest)
    case Nil
    then show ?thesis using assms(1) cls
      by (subst gettok.simps) (simp add: sk cl Let_def)
  next
    case (Cons r rs)
    then show ?thesis using assms(1) cls
      by (subst gettok.simps) (simp add: sk cl Let_def)
  qed
qed

subsection \<open>Termination of the expression parser\<close>

lemma getNextToken_CurTok_lexer:
  "getNextToken f s = (t, s1) \<Longrightarrow> CurTok s1 = t \<and> gettok f (lexer s) = (t, lexer s1)"
  by (auto simp: getNextToken_def split: prod.splits)

lemma tokm_getNextToken_le: "getNextToken f s = (t, s1) \<Longrightarrow> tokm s1 \<le> tokm s"
proof -
  assume a: "getNextToken f s = (t, s1)"
  then have c: "CurTok s1 = t" and g: "gettok f (lexer s) = (t, lexer s1)"
    by (simp_all add: getNextToken_CurTok_lexer)
  show ?thesis
  proof (cases "t = tok_eof")
    case True
    with gettok_lexm_le [OF g] c show ?thesis by (simp add: tokm_def)
  next
    case False
    with gettok_lexm_less [OF g] c show ?thesis by (simp add: tokm_def)
  qed
qed

lemma tokm_getNextToken_less:
  "getNextToken f s = (t, s1) \<Longrightarrow> CurTok s \<noteq> tok_eof \<Longrightarrow> tokm s1 < tokm s"
proof -
  assume a: "getNextToken f s = (t, s1)" and ne: "CurTok s \<noteq> tok_eof"
  then have c: "CurTok s1 = t" and g: "gettok f (lexer s) = (t, lexer s1)"
    by (simp_all add: getNextToken_CurTok_lexer)
  show ?thesis
  proof (cases "t = tok_eof")
    case True
    with gettok_lexm_le [OF g] c ne show ?thesis by (simp add: tokm_def)
  next
    case False
    with gettok_lexm_less [OF g] c ne show ?thesis by (simp add: tokm_def)
  qed
qed

lemma tokm_GetTokPrecedence: "GetTokPrecedence s = (p, s1) \<Longrightarrow> tokm s1 = tokm s"
  using GetTokPrecedence_CurTok [of s] GetTokPrecedence_lexer [of s] by (simp add: tokm_def)

lemma tokm_LogError: "LogError m s = (r, s1) \<Longrightarrow> tokm s1 = tokm s"
  by (auto simp: LogError_def tokm_def)

lemma tokm_ParseNumberExpr:
  "ParseNumberExpr f s = (r, s1) \<Longrightarrow> CurTok s \<noteq> tok_eof \<Longrightarrow> tokm s1 < tokm s"
  by (auto simp: ParseNumberExpr_def split: prod.splits dest: tokm_getNextToken_less)

lemma Parse_tokm_all:
  "(\<forall>s r s1. ParsePrimary f n s = Some (r, s1) \<longrightarrow> tokm s1 \<le> tokm s \<and> (r \<noteq> None \<longrightarrow> tokm s1 < tokm s))
   \<and> (\<forall>s r s1. ParseParenExpr f n s = Some (r, s1) \<longrightarrow> tokm s1 \<le> tokm (snd (getNextToken f s)))
   \<and> (\<forall>s r s1. ParseIdentifierExpr f n s = Some (r, s1) \<longrightarrow> tokm s1 \<le> tokm (snd (getNextToken f s)))
   \<and> (\<forall>a s r s1. ParseArgs f n a s = Some (r, s1) \<longrightarrow> tokm s1 \<le> tokm s)
   \<and> (\<forall>p e s r s1. ParseBinOpRHS f n p e s = Some (r, s1) \<longrightarrow> tokm s1 \<le> tokm s)
   \<and> (\<forall>s r s1. ParseExpression f n s = Some (r, s1) \<longrightarrow> tokm s1 \<le> tokm s \<and> (r \<noteq> None \<longrightarrow> tokm s1 < tokm s))"
proof (induction n)
  case 0
  show ?case by simp
next
  case (Suc n)
  from Suc have P: "tokm s1 \<le> tokm s" if "ParsePrimary f n s = Some (r, s1)" for s r s1
    using that by simp
  from Suc have P': "tokm s1 < tokm s" if "ParsePrimary f n s = Some (Some r, s1)" for s r s1
    using that by simp
  from Suc have R: "tokm s1 \<le> tokm (snd (getNextToken f s))"
    if "ParseParenExpr f n s = Some (r, s1)" for s r s1
    using that by simp
  from Suc have I: "tokm s1 \<le> tokm (snd (getNextToken f s))"
    if "ParseIdentifierExpr f n s = Some (r, s1)" for s r s1
    using that by simp
  from Suc have A: "tokm s1 \<le> tokm s" if "ParseArgs f n a s = Some (r, s1)" for a s r s1
    using that by simp
  from Suc have B: "tokm s1 \<le> tokm s" if "ParseBinOpRHS f n p e s = Some (r, s1)" for p e s r s1
    using that by simp
  from Suc have E: "tokm s1 \<le> tokm s" if "ParseExpression f n s = Some (r, s1)" for s r s1
    using that by simp
  have 1: "tokm s1 \<le> tokm s \<and> (r \<noteq> None \<longrightarrow> tokm s1 < tokm s)"
    if h: "ParsePrimary f (Suc n) s = Some (r, s1)" for s r s1
  proof -
    obtain t s2 where g: "getNextToken f s = (t, s2)" by (cases "getNextToken f s")
    consider (id) "CurTok s = tok_identifier"
      | (num) "CurTok s \<noteq> tok_identifier" "CurTok s = tok_number"
      | (par) "CurTok s \<noteq> tok_identifier" "CurTok s \<noteq> tok_number" "CurTok s = of_char CHR ''(''"
      | (err) "CurTok s \<noteq> tok_identifier" "CurTok s \<noteq> tok_number" "CurTok s \<noteq> of_char CHR ''(''"
      by blast
    then show ?thesis
    proof cases
      case id
      with h have "ParseIdentifierExpr f n s = Some (r, s1)" by simp
      from I [OF this] g have "tokm s1 \<le> tokm s2" by simp
      moreover have "tokm s2 < tokm s" using tokm_getNextToken_less [OF g] id by simp
      ultimately show ?thesis by simp
    next
      case num
      with h have "ParseNumberExpr f s = (r, s1)" by simp
      from tokm_ParseNumberExpr [OF this] num show ?thesis by simp
    next
      case par
      with h have "ParseParenExpr f n s = Some (r, s1)" by simp
      from R [OF this] g have "tokm s1 \<le> tokm s2" by simp
      moreover have "tokm s2 < tokm s" using tokm_getNextToken_less [OF g] par by simp
      ultimately show ?thesis by simp
    next
      case err
      with h show ?thesis by (auto simp: LogError_def tokm_def)
    qed
  qed
  have 2: "tokm s1 \<le> tokm (snd (getNextToken f s))"
    if h: "ParseParenExpr f (Suc n) s = Some (r, s1)" for s r s1
    using h
    by (auto simp: Let_def split: prod.splits option.splits if_splits
        dest!: E tokm_getNextToken_le tokm_LogError)
  have 3: "tokm s1 \<le> tokm (snd (getNextToken f s))"
    if h: "ParseIdentifierExpr f (Suc n) s = Some (r, s1)" for s r s1
    using h
    by (auto simp: Let_def split: prod.splits option.splits if_splits
        dest!: A tokm_getNextToken_le)
  have 4: "tokm s1 \<le> tokm s"
    if h: "ParseArgs f (Suc n) a s = Some (r, s1)" for a s r s1
    using h
    by (auto simp: Let_def split: prod.splits option.splits if_splits
        dest!: A E tokm_getNextToken_le tokm_LogError)
  have 5: "tokm s1 \<le> tokm s"
    if h: "ParseBinOpRHS f (Suc n) p e s = Some (r, s1)" for p e s r s1
    using h
    by (auto simp: Let_def split: prod.splits option.splits if_splits
        dest!: B P tokm_getNextToken_le tokm_GetTokPrecedence)
  have 6: "tokm s1 \<le> tokm s \<and> (r \<noteq> None \<longrightarrow> tokm s1 < tokm s)"
    if h: "ParseExpression f (Suc n) s = Some (r, s1)" for s r s1
    using h
    by (auto simp: Let_def split: prod.splits option.splits if_splits
        dest!: B P P')
  show ?case using 1 2 3 4 5 6 by blast
qed


lemma ParsePrimary_tokm_le: "ParsePrimary f n s = Some (r, s1) \<Longrightarrow> tokm s1 \<le> tokm s"
  using Parse_tokm_all [of f n] by simp

lemma ParsePrimary_tokm_less: "ParsePrimary f n s = Some (Some e, s1) \<Longrightarrow> tokm s1 < tokm s"
  using Parse_tokm_all [of f n] by simp

lemma ParseArgs_tokm_le: "ParseArgs f n a s = Some (r, s1) \<Longrightarrow> tokm s1 \<le> tokm s"
  using Parse_tokm_all [of f n] by simp

lemma ParseBinOpRHS_tokm_le: "ParseBinOpRHS f n p e s = Some (r, s1) \<Longrightarrow> tokm s1 \<le> tokm s"
  using Parse_tokm_all [of f n] by simp

lemma ParseExpression_tokm_le: "ParseExpression f n s = Some (r, s1) \<Longrightarrow> tokm s1 \<le> tokm s"
  using Parse_tokm_all [of f n] by simp

lemma ParseExpression_tokm_less: "ParseExpression f n s = Some (Some e, s1) \<Longrightarrow> tokm s1 < tokm s"
  using Parse_tokm_all [of f n] by simp

lemma Parse_total_all:
  "(\<forall>s. 3 * tokm s + 1 \<le> n \<longrightarrow> ParsePrimary f n s \<noteq> None)
   \<and> (\<forall>s. 3 * tokm (snd (getNextToken f s)) + 3 \<le> n \<longrightarrow> ParseParenExpr f n s \<noteq> None)
   \<and> (\<forall>s. 3 * tokm (snd (getNextToken f s)) + 1 \<le> n \<longrightarrow> ParseIdentifierExpr f n s \<noteq> None)
   \<and> (\<forall>a s. 3 * tokm s + 3 \<le> n \<longrightarrow> ParseArgs f n a s \<noteq> None)
   \<and> (\<forall>p e s. 3 * tokm s + 2 \<le> n \<longrightarrow> ParseBinOpRHS f n p e s \<noteq> None)
   \<and> (\<forall>s. 3 * tokm s + 2 \<le> n \<longrightarrow> ParseExpression f n s \<noteq> None)"
proof (induction n)
  case 0
  show ?case by simp
next
  case (Suc n)
  from Suc have P: "ParsePrimary f n s \<noteq> None" if "3 * tokm s + 1 \<le> n" for s
    using that by simp
  from Suc have R: "ParseParenExpr f n s \<noteq> None"
    if "3 * tokm (snd (getNextToken f s)) + 3 \<le> n" for s
    using that by simp
  from Suc have I: "ParseIdentifierExpr f n s \<noteq> None"
    if "3 * tokm (snd (getNextToken f s)) + 1 \<le> n" for s
    using that by simp
  from Suc have A: "ParseArgs f n a s \<noteq> None" if "3 * tokm s + 3 \<le> n" for a s
    using that by simp
  from Suc have B: "ParseBinOpRHS f n p e s \<noteq> None" if "3 * tokm s + 2 \<le> n" for p e s
    using that by simp
  from Suc have E: "ParseExpression f n s \<noteq> None" if "3 * tokm s + 2 \<le> n" for s
    using that by simp
  have 1: "ParsePrimary f (Suc n) s \<noteq> None" if b: "3 * tokm s + 1 \<le> Suc n" for s
  proof -
    obtain t s2 where g: "getNextToken f s = (t, s2)" by (cases "getNextToken f s")
    have lt: "tokm s2 < tokm s" if "CurTok s \<noteq> tok_eof"
      using tokm_getNextToken_less [OF g that] .
    consider (id) "CurTok s = tok_identifier"
      | (num) "CurTok s \<noteq> tok_identifier" "CurTok s = tok_number"
      | (par) "CurTok s \<noteq> tok_identifier" "CurTok s \<noteq> tok_number" "CurTok s = of_char CHR ''(''"
      | (err) "CurTok s \<noteq> tok_identifier" "CurTok s \<noteq> tok_number" "CurTok s \<noteq> of_char CHR ''(''"
      by blast
    then show ?thesis
    proof cases
      case id
      then have "tokm s2 < tokm s" by (intro lt) simp
      with b have "3 * tokm (snd (getNextToken f s)) + 1 \<le> n" by (simp add: g)
      from I [OF this] id show ?thesis by simp
    next
      case num
      then show ?thesis by simp
    next
      case par
      then have "tokm s2 < tokm s" by (intro lt) simp
      with b have "3 * tokm (snd (getNextToken f s)) + 3 \<le> n" by (simp add: g)
      from R [OF this] par show ?thesis by simp
    next
      case err
      then show ?thesis by simp
    qed
  qed
  have 2: "ParseParenExpr f (Suc n) s \<noteq> None"
    if b: "3 * tokm (snd (getNextToken f s)) + 3 \<le> Suc n" for s
  proof -
    obtain t s1 where g: "getNextToken f s = (t, s1)" by (cases "getNextToken f s")
    from b g have "3 * tokm s1 + 2 \<le> n" by simp
    from E [OF this] show ?thesis
      by (auto simp: g Let_def split: option.splits prod.splits)
  qed
  have 3: "ParseIdentifierExpr f (Suc n) s \<noteq> None"
    if b: "3 * tokm (snd (getNextToken f s)) + 1 \<le> Suc n" for s
  proof -
    obtain t s1 where g: "getNextToken f s = (t, s1)" by (cases "getNextToken f s")
    obtain t2 s2 where g2: "getNextToken f s1 = (t2, s2)" by (cases "getNextToken f s1")
    show ?thesis
    proof (cases "CurTok s1 = of_char CHR ''(''")
      case False
      then show ?thesis by (simp add: g Let_def)
    next
      case True
      then have "tokm s2 < tokm s1" by (intro tokm_getNextToken_less [OF g2]) simp
      with b g have "3 * tokm s2 + 3 \<le> n" by simp
      from A [OF this, of "[]"] True show ?thesis
        by (auto simp: g g2 Let_def split: option.splits prod.splits)
    qed
  qed
  have 4: "ParseArgs f (Suc n) a s \<noteq> None" if b: "3 * tokm s + 3 \<le> Suc n" for a s
  proof -
    from b have "3 * tokm s + 2 \<le> n" by simp
    from E [OF this] obtain r s1 where e: "ParseExpression f n s = Some (r, s1)" by auto
    show ?thesis
    proof (cases r)
      case None
      with e show ?thesis by simp
    next
      case (Some e1)
      with e have lt: "tokm s1 < tokm s" by (auto dest: ParseExpression_tokm_less)
      obtain t2 s2 where g2: "getNextToken f s1 = (t2, s2)" by (cases "getNextToken f s1")
      have "tokm s2 \<le> tokm s1" using tokm_getNextToken_le [OF g2] .
      with lt b have "3 * tokm s2 + 3 \<le> n" by simp
      from A [OF this, of "a @ [e1]"] e Some show ?thesis
        by (auto simp: g2 Let_def split: prod.splits)
    qed
  qed
  have 5: "ParseBinOpRHS f (Suc n) p e s \<noteq> None" if b: "3 * tokm s + 2 \<le> Suc n" for p e s
  proof -
    obtain TokPrec s1 where gp: "GetTokPrecedence s = (TokPrec, s1)" by (cases "GetTokPrecedence s")
    obtain t s2 where g: "getNextToken f s1 = (t, s2)" by (cases "getNextToken f s1")
    have m1: "tokm s1 = tokm s" using tokm_GetTokPrecedence [OF gp] .
    have m2: "tokm s2 \<le> tokm s" using tokm_getNextToken_le [OF g] m1 by simp
    show ?thesis
    proof (cases "TokPrec < p")
      case True
      then show ?thesis by (simp add: gp)
    next
      case False
      from b m2 have "3 * tokm s2 + 1 \<le> n" by simp
      from P [OF this] obtain r s3 where pp: "ParsePrimary f n s2 = Some (r, s3)" by auto
      show ?thesis
      proof (cases r)
        case None
        with pp False show ?thesis by (simp add: gp g)
      next
        case (Some RHS)
        with pp have m3: "tokm s3 < tokm s2" by (auto dest: ParsePrimary_tokm_less)
        obtain NextPrec s4 where gp2: "GetTokPrecedence s3 = (NextPrec, s4)"
          by (cases "GetTokPrecedence s3")
        have m4: "tokm s4 = tokm s3" using tokm_GetTokPrecedence [OF gp2] .
        from b m2 m3 m4 have b4: "3 * tokm s4 + 2 \<le> n" by simp
        show ?thesis
        proof (cases "TokPrec < NextPrec")
          case nest: True
          from B [OF b4, of "TokPrec + 1" RHS] obtain r5 s5
            where in5: "ParseBinOpRHS f n (TokPrec + 1) RHS s4 = Some (r5, s5)" by auto
          have "tokm s5 \<le> tokm s4" using ParseBinOpRHS_tokm_le [OF in5] .
          with b4 have "3 * tokm s5 + 2 \<le> n" by simp
          from B [OF this] in5 pp Some False nest show ?thesis
            by (cases r5) (simp_all add: gp g gp2)
        next
          case flat: False
          from B [OF b4] pp Some False flat show ?thesis
            by (simp add: gp g gp2)
        qed
      qed
    qed
  qed
  have 6: "ParseExpression f (Suc n) s \<noteq> None" if b: "3 * tokm s + 2 \<le> Suc n" for s
  proof -
    from b have "3 * tokm s + 1 \<le> n" by simp
    from P [OF this] obtain r s1 where pp: "ParsePrimary f n s = Some (r, s1)" by auto
    show ?thesis
    proof (cases r)
      case None
      with pp show ?thesis by simp
    next
      case (Some LHS)
      with pp have "tokm s1 < tokm s" by (auto dest: ParsePrimary_tokm_less)
      with b have "3 * tokm s1 + 2 \<le> n" by simp
      from B [OF this] pp Some show ?thesis by simp
    qed
  qed
  show ?case using 1 2 3 4 5 6 by blast
qed

lemma ParseBinOpRHS_tokm_less:
  assumes "ParseBinOpRHS f n p lhs s = Some (Some e, s1)" "\<not> fst (GetTokPrecedence s) < p"
  shows "tokm s1 < tokm s"
proof (cases n)
  case 0
  with assms show ?thesis by simp
next
  case (Suc k)
  obtain TokPrec s1a where gp: "GetTokPrecedence s = (TokPrec, s1a)" by (cases "GetTokPrecedence s")
  obtain t s2 where g: "getNextToken f s1a = (t, s2)" by (cases "getNextToken f s1a")
  have m2: "tokm s2 \<le> tokm s" using tokm_getNextToken_le [OF g] tokm_GetTokPrecedence [OF gp] by simp
  from assms(2) gp have np: "\<not> TokPrec < p" by simp
  from assms(1) np obtain RHS s3 where pp: "ParsePrimary f k s2 = Some (Some RHS, s3)"
    by (auto simp: Suc gp g Let_def split: option.splits prod.splits if_splits)
  have m3: "tokm s3 < tokm s2" using ParsePrimary_tokm_less [OF pp] .
  obtain NextPrec s4 where gp2: "GetTokPrecedence s3 = (NextPrec, s4)"
    by (cases "GetTokPrecedence s3")
  have m4: "tokm s4 = tokm s3" using tokm_GetTokPrecedence [OF gp2] .
  from assms(1) np pp have "tokm s1 \<le> tokm s4"
    by (auto simp: Suc gp g gp2 Let_def split: option.splits prod.splits if_splits
        dest!: ParseBinOpRHS_tokm_le)
  with m2 m3 m4 show ?thesis by simp
qed

lemma ParseBinOpRHS_result_exists:
  "\<exists>r. \<forall>n\<ge>3 * tokm s + 2. ParseBinOpRHS f n p e s = Some r"
proof -
  have "ParseBinOpRHS f (3 * tokm s + 2) p e s \<noteq> None"
    using Parse_total_all [of "3 * tokm s + 2" f] by simp
  then obtain r where r: "ParseBinOpRHS f (3 * tokm s + 2) p e s = Some r" by auto
  have "\<forall>n\<ge>3 * tokm s + 2. ParseBinOpRHS f n p e s = Some r"
    using ParseBinOpRHS_mono [OF r] by blast
  then show ?thesis ..
qed

lemma ParseExpression_result_exists:
  "\<exists>r. \<forall>n\<ge>3 * tokm s + 2. ParseExpression f n s = Some r"
proof -
  have "ParseExpression f (3 * tokm s + 2) s \<noteq> None"
    using Parse_total_all [of "3 * tokm s + 2" f] by simp
  then obtain r where r: "ParseExpression f (3 * tokm s + 2) s = Some r" by auto
  have "\<forall>n\<ge>3 * tokm s + 2. ParseExpression f n s = Some r"
    using ParseExpression_mono [OF r] by blast
  then show ?thesis ..
qed

subsection \<open>Failures\<close>

lemma rejects_simps:
  "rejects msg_unknown_token t \<longleftrightarrow> t \<noteq> tok_identifier \<and> t \<noteq> tok_number \<and> t \<noteq> 40"
  "rejects msg_expected_rparen t \<longleftrightarrow> t \<noteq> 41"
  "rejects msg_arg_list t \<longleftrightarrow> t \<noteq> 41 \<and> t \<noteq> 44"
  "rejects msg_proto_name t \<longleftrightarrow> t \<noteq> tok_identifier"
  "rejects msg_proto_lparen t \<longleftrightarrow> t \<noteq> 40"
  "rejects msg_proto_rparen t \<longleftrightarrow> t \<noteq> 41"
  by (simp_all add: rejects_def msg_unknown_token_def msg_expected_rparen_def msg_arg_list_def
      msg_proto_name_def msg_proto_lparen_def msg_proto_rparen_def apostrophe_def)

lemma failure_report_frame:
  "stderr s0 = stderr s \<Longrightarrow> failure_report s0 s1 = failure_report s s1"
  by (simp add: failure_report_def)

lemma reported_frame: "stderr s0 = stderr s \<Longrightarrow> reported s0 r s1 \<Longrightarrow> reported s r s1"
  by (simp add: reported_def failure_report_def split: option.splits)

lemma getNextToken_stderr: "getNextToken f s = (t, s1) \<Longrightarrow> stderr s1 = stderr s"
  using getNextToken_frame(2) [of f s] by simp

lemma GetTokPrecedence_stderr': "GetTokPrecedence s = (p, s1) \<Longrightarrow> stderr s1 = stderr s"
  using GetTokPrecedence_stderr [of s] by simp

lemma LogError_report:
  "rejects msg (CurTok s) \<Longrightarrow> LogError msg s = (r, s1) \<Longrightarrow> failure_report s s1 \<and> r = None"
  by (auto simp: LogError_def failure_report_def)

lemma Parse_reported_all:
  "(\<forall>s r s1. ParsePrimary f n s = Some (r, s1) \<longrightarrow> reported s r s1)
   \<and> (\<forall>s r s1. ParseParenExpr f n s = Some (r, s1) \<longrightarrow> reported s r s1)
   \<and> (\<forall>s r s1. ParseIdentifierExpr f n s = Some (r, s1) \<longrightarrow> reported s r s1)
   \<and> (\<forall>a s r s1. ParseArgs f n a s = Some (r, s1) \<longrightarrow> reported s r s1)
   \<and> (\<forall>p e s r s1. ParseBinOpRHS f n p e s = Some (r, s1) \<longrightarrow> reported s r s1)
   \<and> (\<forall>s r s1. ParseExpression f n s = Some (r, s1) \<longrightarrow> reported s r s1)"
proof (induction n)
  case 0
  show ?case by simp
next
  case (Suc n)
  from Suc have P: "reported s r s1" if "ParsePrimary f n s = Some (r, s1)" for s r s1
    using that by simp
  from Suc have R: "reported s r s1" if "ParseParenExpr f n s = Some (r, s1)" for s r s1
    using that by simp
  from Suc have I: "reported s r s1" if "ParseIdentifierExpr f n s = Some (r, s1)" for s r s1
    using that by simp
  from Suc have A: "reported s r s1" if "ParseArgs f n a s = Some (r, s1)" for a s r s1
    using that by simp
  from Suc have B: "reported s r s1" if "ParseBinOpRHS f n p e s = Some (r, s1)" for p e s r s1
    using that by simp
  from Suc have E: "reported s r s1" if "ParseExpression f n s = Some (r, s1)" for s r s1
    using that by simp
  have 1: "reported s r s1" if h: "ParsePrimary f (Suc n) s = Some (r, s1)" for s r s1
  proof -
    consider (id) "CurTok s = tok_identifier"
      | (num) "CurTok s \<noteq> tok_identifier" "CurTok s = tok_number"
      | (par) "CurTok s \<noteq> tok_identifier" "CurTok s \<noteq> tok_number" "CurTok s = of_char CHR ''(''"
      | (err) "CurTok s \<noteq> tok_identifier" "CurTok s \<noteq> tok_number" "CurTok s \<noteq> of_char CHR ''(''"
      by blast
    then show ?thesis
    proof cases
      case id
      with h show ?thesis by (simp add: I)
    next
      case num
      with h show ?thesis
        by (auto simp: ParseNumberExpr_def reported_def split: prod.splits dest: getNextToken_stderr)
    next
      case par
      with h show ?thesis by (simp add: R)
    next
      case err
      with h show ?thesis
        by (auto simp: LogError_def reported_def failure_report_def rejects_simps)
    qed
  qed
  have 2: "reported s r s1" if h: "ParseParenExpr f (Suc n) s = Some (r, s1)" for s r s1
  proof -
    obtain t sa where g: "getNextToken f s = (t, sa)" by (cases "getNextToken f s")
    have fr: "stderr sa = stderr s" using getNextToken_stderr [OF g] .
    from h obtain r2 s2 where e: "ParseExpression f n sa = Some (r2, s2)"
      by (auto simp: g split: option.splits)
    have rep: "reported s r2 s2" using reported_frame [OF fr E [OF e]] .
    show ?thesis
    proof (cases r2)
      case None
      with h e rep show ?thesis by (simp add: g)
    next
      case (Some V)
      with rep have st: "stderr s2 = stderr s" by (simp add: reported_def)
      show ?thesis
      proof (cases "CurTok s2 = of_char CHR '')''")
        case True
        with h e Some st show ?thesis
          by (auto simp: g reported_def split: prod.splits dest: getNextToken_stderr)
      next
        case False
        with h e Some st show ?thesis
          by (auto simp: g LogError_def reported_def failure_report_def rejects_simps)
      qed
    qed
  qed
  have 3: "reported s r s1" if h: "ParseIdentifierExpr f (Suc n) s = Some (r, s1)" for s r s1
  proof -
    obtain t sa where g: "getNextToken f s = (t, sa)" by (cases "getNextToken f s")
    obtain t2 sb where g2: "getNextToken f sa = (t2, sb)" by (cases "getNextToken f sa")
    have fr: "stderr sa = stderr s" "stderr sb = stderr s"
      using getNextToken_stderr [OF g] getNextToken_stderr [OF g2] by simp_all
    show ?thesis
    proof (cases "CurTok sa = of_char CHR ''(''")
      case False
      with h fr show ?thesis by (auto simp: g Let_def reported_def)
    next
      case lp: True
      show ?thesis
      proof (cases "CurTok sb = of_char CHR '')''")
        case True
        with h lp fr show ?thesis
          by (auto simp: g g2 Let_def reported_def split: prod.splits dest: getNextToken_stderr)
      next
        case False
        with h lp obtain r3 s3 where a: "ParseArgs f n [] sb = Some (r3, s3)"
          by (auto simp: g g2 Let_def split: option.splits)
        have rep: "reported s r3 s3" using reported_frame [OF fr(2) A [OF a]] .
        from h lp False a rep show ?thesis
          by (cases r3)
            (auto simp: g g2 Let_def reported_def split: prod.splits dest: getNextToken_stderr)
      qed
    qed
  qed
  have 4: "reported s r s1" if h: "ParseArgs f (Suc n) a s = Some (r, s1)" for a s r s1
  proof -
    from h obtain r2 s2 where e: "ParseExpression f n s = Some (r2, s2)"
      by (auto split: option.splits)
    have rep: "reported s r2 s2" using E [OF e] .
    show ?thesis
    proof (cases r2)
      case None
      with h e rep show ?thesis by (simp add: reported_def)
    next
      case (Some e1)
      with rep have st: "stderr s2 = stderr s" by (simp add: reported_def)
      obtain t3 s3 where g3: "getNextToken f s2 = (t3, s3)" by (cases "getNextToken f s2")
      have st3: "stderr s3 = stderr s" using getNextToken_stderr [OF g3] st by simp
      consider (close) "CurTok s2 = of_char CHR '')''"
        | (bad) "CurTok s2 \<noteq> of_char CHR '')''" "CurTok s2 \<noteq> of_char CHR '',''"
        | (more) "CurTok s2 \<noteq> of_char CHR '')''" "CurTok s2 = of_char CHR '',''"
        by blast
      then show ?thesis
      proof cases
        case close
        with h e Some st show ?thesis by (auto simp: Let_def reported_def)
      next
        case bad
        with h e Some st show ?thesis
          by (auto simp: Let_def LogError_def reported_def failure_report_def rejects_simps)
      next
        case more
        with h e Some have "ParseArgs f n (a @ [e1]) s3 = Some (r, s1)"
          by (simp add: Let_def g3)
        from reported_frame [OF st3 A [OF this]] show ?thesis .
      qed
    qed
  qed
  have 5: "reported s r s1" if h: "ParseBinOpRHS f (Suc n) p e s = Some (r, s1)" for p e s r s1
  proof -
    obtain TokPrec sa where gp: "GetTokPrecedence s = (TokPrec, sa)" by (cases "GetTokPrecedence s")
    obtain t sb where g: "getNextToken f sa = (t, sb)" by (cases "getNextToken f sa")
    have fr: "stderr sa = stderr s" "stderr sb = stderr s"
      using GetTokPrecedence_stderr' [OF gp] getNextToken_stderr [OF g] by simp_all
    show ?thesis
    proof (cases "TokPrec < p")
      case True
      with h fr show ?thesis by (auto simp: gp reported_def)
    next
      case False
      with h obtain r3 s3 where pp: "ParsePrimary f n sb = Some (r3, s3)"
        by (auto simp: gp g split: option.splits)
      have rep3: "reported s r3 s3" using reported_frame [OF fr(2) P [OF pp]] .
      show ?thesis
      proof (cases r3)
        case None
        with h False pp rep3 show ?thesis by (simp add: gp g)
      next
        case (Some RHS)
        with rep3 have st3: "stderr s3 = stderr s" by (simp add: reported_def)
        obtain NextPrec s4 where gp2: "GetTokPrecedence s3 = (NextPrec, s4)"
          by (cases "GetTokPrecedence s3")
        have st4: "stderr s4 = stderr s" using GetTokPrecedence_stderr' [OF gp2] st3 by simp
        show ?thesis
        proof (cases "TokPrec < NextPrec")
          case nest: True
          with h False pp Some obtain r5 s5
            where in5: "ParseBinOpRHS f n (TokPrec + 1) RHS s4 = Some (r5, s5)"
            by (auto simp: gp g gp2 split: option.splits)
          have rep5: "reported s r5 s5" using reported_frame [OF st4 B [OF in5]] .
          show ?thesis
          proof (cases r5)
            case None
            with h False pp Some nest in5 rep5 show ?thesis by (simp add: gp g gp2)
          next
            case inner: (Some RHS1)
            with rep5 have st5: "stderr s5 = stderr s" by (simp add: reported_def)
            from h False pp Some nest in5 inner
            have "ParseBinOpRHS f n p (BinaryExprAST (char_of (CurTok sa)) e RHS1) s5 = Some (r, s1)"
              by (simp add: gp g gp2)
            from reported_frame [OF st5 B [OF this]] show ?thesis .
          qed
        next
          case flat: False
          with h False pp Some
          have "ParseBinOpRHS f n p (BinaryExprAST (char_of (CurTok sa)) e RHS) s4 = Some (r, s1)"
            by (simp add: gp g gp2)
          from reported_frame [OF st4 B [OF this]] show ?thesis .
        qed
      qed
    qed
  qed
  have 6: "reported s r s1" if h: "ParseExpression f (Suc n) s = Some (r, s1)" for s r s1
  proof -
    from h obtain r2 s2 where pp: "ParsePrimary f n s = Some (r2, s2)"
      by (auto split: option.splits)
    have rep: "reported s r2 s2" using P [OF pp] .
    show ?thesis
    proof (cases r2)
      case None
      with h pp rep show ?thesis by simp
    next
      case (Some LHS)
      with rep have st: "stderr s2 = stderr s" by (simp add: reported_def)
      from h pp Some have "ParseBinOpRHS f n 0 LHS s2 = Some (r, s1)" by simp
      from reported_frame [OF st B [OF this]] show ?thesis .
    qed
  qed
  show ?case using 1 2 3 4 5 6 by blast
qed


lemma proto_args_stderr: "stderr (snd (proto_args f a s)) = stderr s"
proof (induction f a s rule: proto_args.induct)
  case (1 f a s)
  obtain t s1 where g: "getNextToken f s = (t, s1)" by (cases "getNextToken f s")
  have st: "stderr s1 = stderr s" using getNextToken_stderr [OF g] .
  show ?case
  proof (cases "t = tok_identifier")
    case True
    with 1 [OF g [symmetric] refl True] g st show ?thesis
      by (subst proto_args.simps) simp
  next
    case False
    with g st show ?thesis by (subst proto_args.simps) simp
  qed
qed

lemma ParsePrototype_reported: "ParsePrototype f s = (r, s1) \<Longrightarrow> reported s r s1"
proof -
  assume h: "ParsePrototype f s = (r, s1)"
  obtain t sa where g: "getNextToken f s = (t, sa)" by (cases "getNextToken f s")
  obtain names sb where pa: "proto_args f [] sa = (names, sb)" by (cases "proto_args f [] sa")
  obtain t3 sc where g3: "getNextToken f sb = (t3, sc)" by (cases "getNextToken f sb")
  have st: "stderr sa = stderr s" using getNextToken_stderr [OF g] .
  have stb: "stderr sb = stderr s" using proto_args_stderr [of f "[]" sa] pa st by simp
  have stc: "stderr sc = stderr s" using getNextToken_stderr [OF g3] stb by simp
  consider (name) "CurTok s \<noteq> tok_identifier"
    | (lp) "CurTok s = tok_identifier" "CurTok sa \<noteq> of_char CHR ''(''"
    | (rp) "CurTok s = tok_identifier" "CurTok sa = of_char CHR ''(''" "CurTok sb \<noteq> of_char CHR '')''"
    | (ok) "CurTok s = tok_identifier" "CurTok sa = of_char CHR ''(''" "CurTok sb = of_char CHR '')''"
    by blast
  then show ?thesis
  proof cases
    case name
    with h show ?thesis
      by (auto simp: ParsePrototype_def LogErrorP_def LogError_def reported_def
          failure_report_def rejects_simps)
  next
    case lp
    with h st show ?thesis
      by (auto simp: ParsePrototype_def g LogErrorP_def LogError_def reported_def
          failure_report_def rejects_simps)
  next
    case rp
    with h stb show ?thesis
      by (auto simp: ParsePrototype_def g pa LogErrorP_def LogError_def reported_def
          failure_report_def rejects_simps)
  next
    case ok
    with h stc show ?thesis
      by (auto simp: ParsePrototype_def g pa g3 reported_def)
  qed
qed

lemma reported_None: "reported s None s1 \<Longrightarrow> failure_report s s1"
  by (simp add: reported_def)

subsection \<open>What a successful parse consumes\<close>

lemma toks_getNextToken:
  assumes "CurTok s \<noteq> tok_eof" "getNextToken f s = (t, s1)"
  shows "toks f s = CurTok s # toks f s1"
proof -
  from assms(2) have c: "CurTok s1 = t" and g: "gettok f (lexer s) = (t, lexer s1)"
    by (simp_all add: getNextToken_CurTok_lexer)
  have "lex_all f (lexer s) = (if t = tok_eof then [] else (t, lexer s1) # lex_all f (lexer s1))"
    by (subst lex_all.simps) (simp add: g)
  with assms(1) c show ?thesis by (simp add: toks_def)
qed

lemma toks_GetTokPrecedence: "GetTokPrecedence s = (p, s1) \<Longrightarrow> toks f s1 = toks f s"
  using GetTokPrecedence_CurTok [of s] GetTokPrecedence_lexer [of s] by (simp add: toks_def)

lemma is_binop_GetTokPrecedence:
  "GetTokPrecedence s = (p, s1) \<Longrightarrow> is_binop (BinopPrecedence s1) = is_binop (BinopPrecedence s)"
proof -
  assume a: "GetTokPrecedence s = (p, s1)"
  have t: "BinopPrecedence s1 =
     (if isascii (CurTok s) \<and> BinopPrecedence s (char_of (CurTok s)) = None
      then (BinopPrecedence s)(char_of (CurTok s) \<mapsto> 0) else BinopPrecedence s)"
    using GetTokPrecedence_table [of s] a by simp
  show ?thesis
  proof
    fix x
    show "is_binop (BinopPrecedence s1) x = is_binop (BinopPrecedence s) x"
      unfolding t
      by (cases "char_of x = char_of (CurTok s)")
        (auto simp del: char_of_quasi_inj simp: is_binop_def split: option.splits)
  qed
qed

lemma GetTokPrecedence_is_binop:
  "GetTokPrecedence s = (p, s1) \<Longrightarrow> 0 \<le> p \<Longrightarrow> is_binop (BinopPrecedence s) (CurTok s)"
  using GetTokPrecedence_fst [of s]
  by (auto simp: is_binop_def split: if_splits option.splits)

lemma is_binop_not_eof: "is_binop m t \<Longrightarrow> t \<noteq> tok_eof"
  by (auto simp: is_binop_def)

lemma binoprhs_toks_append:
  "binoprhs_toks ops r1 \<Longrightarrow> binoprhs_toks ops r2 \<Longrightarrow> binoprhs_toks ops (r1 @ r2)"
proof (induction r1 arbitrary: r2 rule: length_induct)
  case (1 r1)
  from 1(2) show ?case
  proof (cases rule: binoprhs_toks.cases)
    case rhs_done
    with 1(3) show ?thesis by simp
  next
    case (rhs_more t p r)
    then have "length r < length r1" by simp
    with 1(1) rhs_more(4) 1(3) have "binoprhs_toks ops (r @ r2)" by blast
    with rhs_more have "binoprhs_toks ops (t # p @ (r @ r2))"
      by (intro primary_toks_binoprhs_toks_expression_toks_args_toks.rhs_more)
    with rhs_more(1) show ?thesis by simp
  qed
qed


lemma binops_getNextToken: "getNextToken f s = (t, s1) \<Longrightarrow> binops s1 = binops s"
  using getNextToken_frame(1) [of f s] by (simp add: binops_def)

lemma binops_GetTokPrecedence: "GetTokPrecedence s = (p, s1) \<Longrightarrow> binops s1 = binops s"
  by (simp add: binops_def is_binop_GetTokPrecedence)

lemma binops_LogError: "LogError m s = (r, s1) \<Longrightarrow> binops s1 = binops s"
  by (auto simp: LogError_def binops_def)

lemma Parse_binops_all:
  "(\<forall>s r s1. ParsePrimary f n s = Some (r, s1) \<longrightarrow> binops s1 = binops s)
   \<and> (\<forall>s r s1. ParseParenExpr f n s = Some (r, s1) \<longrightarrow> binops s1 = binops s)
   \<and> (\<forall>s r s1. ParseIdentifierExpr f n s = Some (r, s1) \<longrightarrow> binops s1 = binops s)
   \<and> (\<forall>a s r s1. ParseArgs f n a s = Some (r, s1) \<longrightarrow> binops s1 = binops s)
   \<and> (\<forall>p e s r s1. ParseBinOpRHS f n p e s = Some (r, s1) \<longrightarrow> binops s1 = binops s)
   \<and> (\<forall>s r s1. ParseExpression f n s = Some (r, s1) \<longrightarrow> binops s1 = binops s)"
proof (induction n)
  case 0
  show ?case by simp
next
  case (Suc n)
  from Suc have P: "binops s1 = binops s" if "ParsePrimary f n s = Some (r, s1)" for s r s1
    using that by simp
  from Suc have R: "binops s1 = binops s" if "ParseParenExpr f n s = Some (r, s1)" for s r s1
    using that by simp
  from Suc have I: "binops s1 = binops s" if "ParseIdentifierExpr f n s = Some (r, s1)" for s r s1
    using that by simp
  from Suc have A: "binops s1 = binops s" if "ParseArgs f n a s = Some (r, s1)" for a s r s1
    using that by simp
  from Suc have B: "binops s1 = binops s" if "ParseBinOpRHS f n p e s = Some (r, s1)" for p e s r s1
    using that by simp
  from Suc have E: "binops s1 = binops s" if "ParseExpression f n s = Some (r, s1)" for s r s1
    using that by simp
  have 1: "binops s1 = binops s" if h: "ParsePrimary f (Suc n) s = Some (r, s1)" for s r s1
    using h
    by (auto simp: ParseNumberExpr_def split: prod.splits if_splits
        dest: I R binops_getNextToken binops_LogError)
  have 2: "binops s1 = binops s" if h: "ParseParenExpr f (Suc n) s = Some (r, s1)" for s r s1
    using h
    by (auto simp: Let_def split: prod.splits option.splits if_splits
        dest!: E binops_getNextToken binops_LogError)
  have 3: "binops s1 = binops s" if h: "ParseIdentifierExpr f (Suc n) s = Some (r, s1)" for s r s1
    using h
    by (auto simp: Let_def split: prod.splits option.splits if_splits
        dest!: A binops_getNextToken)
  have 4: "binops s1 = binops s" if h: "ParseArgs f (Suc n) a s = Some (r, s1)" for a s r s1
    using h
    by (auto simp: Let_def split: prod.splits option.splits if_splits
        dest!: A E binops_getNextToken binops_LogError)
  have 5: "binops s1 = binops s" if h: "ParseBinOpRHS f (Suc n) p e s = Some (r, s1)" for p e s r s1
    using h
    by (auto simp: Let_def split: prod.splits option.splits if_splits
        dest!: B P binops_getNextToken binops_GetTokPrecedence)
  have 6: "binops s1 = binops s" if h: "ParseExpression f (Suc n) s = Some (r, s1)" for s r s1
    using h
    by (auto simp: Let_def split: prod.splits option.splits if_splits dest!: B P)
  show ?case using 1 2 3 4 5 6 by blast
qed

lemma ParsePrimary_binops: "ParsePrimary f n s = Some (r, s1) \<Longrightarrow> binops s1 = binops s"
  using Parse_binops_all [of f n] by simp

lemma ParseBinOpRHS_binops: "ParseBinOpRHS f n p e s = Some (r, s1) \<Longrightarrow> binops s1 = binops s"
  using Parse_binops_all [of f n] by simp

lemma ParseExpression_binops: "ParseExpression f n s = Some (r, s1) \<Longrightarrow> binops s1 = binops s"
  using Parse_binops_all [of f n] by simp


lemma spansI: "g ts \<Longrightarrow> toks f s = ts @ toks f s1 \<Longrightarrow> spans f g s s1"
  by (auto simp: spans_def)

lemma Parse_spans_all:
  "(\<forall>s e s1. binops s = ops \<longrightarrow> ParsePrimary f n s = Some (Some e, s1) \<longrightarrow>
      spans f (primary_toks ops) s s1)
   \<and> (\<forall>s e s1. binops s = ops \<longrightarrow> CurTok s = of_char CHR ''('' \<longrightarrow>
        ParseParenExpr f n s = Some (Some e, s1) \<longrightarrow> spans f (primary_toks ops) s s1)
   \<and> (\<forall>s e s1. binops s = ops \<longrightarrow> CurTok s = tok_identifier \<longrightarrow>
        ParseIdentifierExpr f n s = Some (Some e, s1) \<longrightarrow> spans f (primary_toks ops) s s1)
   \<and> (\<forall>a s es s1. binops s = ops \<longrightarrow> ParseArgs f n a s = Some (Some es, s1) \<longrightarrow>
        spans f (args_toks ops) s s1 \<and> CurTok s1 = of_char CHR '')'')
   \<and> (\<forall>p e s e1 s1. binops s = ops \<longrightarrow> 0 \<le> p \<longrightarrow>
        ParseBinOpRHS f n p e s = Some (Some e1, s1) \<longrightarrow>
        spans f (binoprhs_toks ops) s s1 \<and> fst (GetTokPrecedence s1) < p)
   \<and> (\<forall>s e s1. binops s = ops \<longrightarrow> ParseExpression f n s = Some (Some e, s1) \<longrightarrow>
        spans f (expression_toks ops) s s1 \<and> fst (GetTokPrecedence s1) < 0)"
proof (induction n)
  case 0
  show ?case by simp
next
  case (Suc n)
  from Suc have P: "spans f (primary_toks ops) s s1"
    if "binops s = ops" "ParsePrimary f n s = Some (Some e, s1)" for s e s1
    using that by simp
  from Suc have R: "spans f (primary_toks ops) s s1"
    if "binops s = ops" "CurTok s = of_char CHR ''(''" "ParseParenExpr f n s = Some (Some e, s1)"
    for s e s1
    using that by simp
  from Suc have I: "spans f (primary_toks ops) s s1"
    if "binops s = ops" "CurTok s = tok_identifier" "ParseIdentifierExpr f n s = Some (Some e, s1)"
    for s e s1
    using that by simp
  from Suc have A: "spans f (args_toks ops) s s1 \<and> CurTok s1 = of_char CHR '')''"
    if "binops s = ops" "ParseArgs f n a s = Some (Some es, s1)" for a s es s1
    using that by simp
  from Suc have B: "spans f (binoprhs_toks ops) s s1 \<and> fst (GetTokPrecedence s1) < p"
    if "binops s = ops" "0 \<le> p" "ParseBinOpRHS f n p e s = Some (Some e1, s1)" for p e s e1 s1
    using that by simp
  from Suc have E: "spans f (expression_toks ops) s s1 \<and> fst (GetTokPrecedence s1) < 0"
    if "binops s = ops" "ParseExpression f n s = Some (Some e, s1)" for s e s1
    using that by simp
  have 1: "spans f (primary_toks ops) s s1"
    if b: "binops s = ops" and h: "ParsePrimary f (Suc n) s = Some (Some e, s1)" for s e s1
  proof -
    consider (id) "CurTok s = tok_identifier"
      | (num) "CurTok s \<noteq> tok_identifier" "CurTok s = tok_number"
      | (par) "CurTok s \<noteq> tok_identifier" "CurTok s \<noteq> tok_number" "CurTok s = of_char CHR ''(''"
      | (err) "CurTok s \<noteq> tok_identifier" "CurTok s \<noteq> tok_number" "CurTok s \<noteq> of_char CHR ''(''"
      by blast
    then show ?thesis
    proof cases
      case id
      with h have "ParseIdentifierExpr f n s = Some (Some e, s1)" by simp
      from I [OF b id this] show ?thesis .
    next
      case num
      with h obtain t where g: "getNextToken f s = (t, s1)"
        by (auto simp: ParseNumberExpr_def split: prod.splits)
      have "toks f s = [tok_number] @ toks f s1"
        using toks_getNextToken [OF _ g] num by simp
      then show ?thesis by (intro spansI [of _ "[tok_number]"]) (rule number)
    next
      case par
      with h have "ParseParenExpr f n s = Some (Some e, s1)" by simp
      from R [OF b par(3) this] show ?thesis .
    next
      case err
      with h show ?thesis by (simp add: LogError_def)
    qed
  qed
  have 2: "spans f (primary_toks ops) s s1"
    if b: "binops s = ops" and c: "CurTok s = of_char CHR ''(''"
      and h: "ParseParenExpr f (Suc n) s = Some (Some e, s1)" for s e s1
  proof -
    obtain t sa where g: "getNextToken f s = (t, sa)" by (cases "getNextToken f s")
    have t0: "toks f s = of_char CHR ''('' # toks f sa" using toks_getNextToken [OF _ g] c by simp
    have ba: "binops sa = ops" using binops_getNextToken [OF g] b by simp
    from h obtain r2 s2 where e2: "ParseExpression f n sa = Some (r2, s2)"
      by (auto simp: g split: option.splits)
    from h e2 obtain V where r2: "r2 = Some V" by (cases r2) (auto simp: g)
    from h e2 r2 have c2: "CurTok s2 = of_char CHR '')''"
      by (auto simp: g LogError_def split: if_splits)
    with h e2 r2 obtain t3 where g3: "getNextToken f s2 = (t3, s1)"
      by (auto simp: g split: prod.splits)
    from E [OF ba e2 [unfolded r2]] obtain ts
      where ts: "expression_toks ops ts" "toks f sa = ts @ toks f s2"
      by (auto simp: spans_def)
    have t2: "toks f s2 = of_char CHR '')'' # toks f s1" using toks_getNextToken [OF _ g3] c2 by simp
    have "toks f s = (of_char CHR ''('' # ts @ [of_char CHR '')'']) @ toks f s1"
      using t0 ts(2) t2 by simp
    then show ?thesis by (rule spansI [rotated]) (rule paren [OF ts(1)])
  qed
  have 3: "spans f (primary_toks ops) s s1"
    if b: "binops s = ops" and c: "CurTok s = tok_identifier"
      and h: "ParseIdentifierExpr f (Suc n) s = Some (Some e, s1)" for s e s1
  proof -
    obtain t sa where g: "getNextToken f s = (t, sa)" by (cases "getNextToken f s")
    obtain t2 sb where g2: "getNextToken f sa = (t2, sb)" by (cases "getNextToken f sa")
    have t0: "toks f s = tok_identifier # toks f sa" using toks_getNextToken [OF _ g] c by simp
    have bb: "binops sb = ops" using binops_getNextToken [OF g] binops_getNextToken [OF g2] b by simp
    show ?thesis
    proof (cases "CurTok sa = of_char CHR ''(''")
      case False
      with h have "s1 = sa" by (simp add: g Let_def)
      with t0 have "toks f s = [tok_identifier] @ toks f s1" by simp
      then show ?thesis by (rule spansI [rotated]) (rule variable)
    next
      case lp: True
      have ta: "toks f sa = of_char CHR ''('' # toks f sb" using toks_getNextToken [OF _ g2] lp by simp
      show ?thesis
      proof (cases "CurTok sb = of_char CHR '')''")
        case True
        with h lp obtain t3 where g3: "getNextToken f sb = (t3, s1)"
          by (auto simp: g g2 Let_def split: prod.splits)
        have "toks f sb = of_char CHR '')'' # toks f s1" using toks_getNextToken [OF _ g3] True by simp
        with t0 ta have "toks f s = [tok_identifier, of_char CHR ''('', of_char CHR '')''] @ toks f s1"
          by simp
        then show ?thesis by (rule spansI [rotated]) (rule call_empty)
      next
        case False
        with h lp obtain r3 s3 where a3: "ParseArgs f n [] sb = Some (r3, s3)"
          by (auto simp: g g2 Let_def split: option.splits)
        from h lp False a3 obtain es where r3: "r3 = Some es" by (cases r3) (auto simp: g g2 Let_def)
        from h lp False a3 r3 obtain t4 where g4: "getNextToken f s3 = (t4, s1)"
          by (auto simp: g g2 Let_def split: prod.splits)
        from A [OF bb a3 [unfolded r3]] obtain ts
          where ts: "args_toks ops ts" "toks f sb = ts @ toks f s3" and c3: "CurTok s3 = of_char CHR '')''"
          by (auto simp: spans_def)
        have "toks f s3 = of_char CHR '')'' # toks f s1" using toks_getNextToken [OF _ g4] c3 by simp
        with t0 ta ts(2)
        have "toks f s = ([tok_identifier, of_char CHR ''(''] @ ts @ [of_char CHR '')'']) @ toks f s1"
          by simp
        then show ?thesis by (rule spansI [rotated]) (rule call [OF ts(1)])
      qed
    qed
  qed
  have 4: "spans f (args_toks ops) s s1 \<and> CurTok s1 = of_char CHR '')''"
    if b: "binops s = ops" and h: "ParseArgs f (Suc n) a s = Some (Some es, s1)" for a s es s1
  proof -
    from h obtain r2 s2 where e2: "ParseExpression f n s = Some (r2, s2)"
      by (auto split: option.splits)
    from h e2 obtain e1 where r2: "r2 = Some e1" by (cases r2) auto
    note e2' = e2 [unfolded r2]
    from E [OF b e2'] obtain ts1
      where ts1: "expression_toks ops ts1" "toks f s = ts1 @ toks f s2"
      by (auto simp: spans_def)
    have b2: "binops s2 = ops" using ParseExpression_binops [OF e2'] b by simp
    consider (close) "CurTok s2 = of_char CHR '')''"
      | (bad) "CurTok s2 \<noteq> of_char CHR '')''" "CurTok s2 \<noteq> of_char CHR '',''"
      | (more) "CurTok s2 \<noteq> of_char CHR '')''" "CurTok s2 = of_char CHR '',''"
      by blast
    then show ?thesis
    proof cases
      case close
      with h e2' have "s1 = s2" by (simp add: Let_def)
      with ts1 close show ?thesis by (auto intro!: spansI [of _ ts1] args_last)
    next
      case bad
      with h e2' show ?thesis by (simp add: Let_def LogError_def)
    next
      case more
      obtain t3 s3 where g3: "getNextToken f s2 = (t3, s3)" by (cases "getNextToken f s2")
      have t2: "toks f s2 = of_char CHR '','' # toks f s3" using toks_getNextToken [OF _ g3] more by simp
      have b3: "binops s3 = ops" using binops_getNextToken [OF g3] b2 by simp
      from h e2' more have "ParseArgs f n (a @ [e1]) s3 = Some (Some es, s1)"
        by (simp add: Let_def g3)
      from A [OF b3 this] obtain ts2
        where ts2: "args_toks ops ts2" "toks f s3 = ts2 @ toks f s1" and c1: "CurTok s1 = of_char CHR '')''"
        by (auto simp: spans_def)
      have "toks f s = (ts1 @ of_char CHR '','' # ts2) @ toks f s1" using ts1(2) t2 ts2(2) by simp
      then have "spans f (args_toks ops) s s1"
        by (rule spansI [rotated]) (rule args_more [OF ts1(1) ts2(1)])
      with c1 show ?thesis by simp
    qed
  qed
  have 5: "spans f (binoprhs_toks ops) s s1 \<and> fst (GetTokPrecedence s1) < p"
    if b: "binops s = ops" and p0: "0 \<le> p"
      and h: "ParseBinOpRHS f (Suc n) p e s = Some (Some e1, s1)" for p e s e1 s1
  proof -
    obtain TokPrec sa where gp: "GetTokPrecedence s = (TokPrec, sa)" by (cases "GetTokPrecedence s")
    have ta: "toks f sa = toks f s" using toks_GetTokPrecedence [OF gp] .
    have ba: "binops sa = ops" using binops_GetTokPrecedence [OF gp] b by simp
    have ca: "CurTok sa = CurTok s" using GetTokPrecedence_CurTok [of s] gp by simp
    show ?thesis
    proof (cases "TokPrec < p")
      case True
      with h have s1: "s1 = sa" by (simp add: gp)
      have "fst (GetTokPrecedence sa) = TokPrec" using GetTokPrecedence_again [of s] gp by simp
      with True s1 ta show ?thesis by (auto intro!: spansI [of _ "[]"] rhs_done)
    next
      case False
      with p0 have tp0: "0 \<le> TokPrec" by simp
      have "is_binop (BinopPrecedence s) (CurTok s)" using GetTokPrecedence_is_binop [OF gp tp0] .
      with b have op: "ops (CurTok s)" and ne: "CurTok s \<noteq> tok_eof"
        by (auto simp: binops_def dest: is_binop_not_eof)
      obtain t sb where g: "getNextToken f sa = (t, sb)" by (cases "getNextToken f sa")
      have t0: "toks f s = CurTok s # toks f sb" using toks_getNextToken [OF _ g] ne ca ta by simp
      have bb: "binops sb = ops" using binops_getNextToken [OF g] ba by simp
      from h False obtain r3 s3 where pp: "ParsePrimary f n sb = Some (r3, s3)"
        by (auto simp: gp g split: option.splits)
      from h False pp obtain RHS where r3: "r3 = Some RHS" by (cases r3) (auto simp: gp g)
      note pp' = pp [unfolded r3]
      from P [OF bb pp'] obtain tp where tp: "primary_toks ops tp" "toks f sb = tp @ toks f s3"
        by (auto simp: spans_def)
      have b3: "binops s3 = ops" using ParsePrimary_binops [OF pp'] bb by simp
      obtain NextPrec s4 where gp2: "GetTokPrecedence s3 = (NextPrec, s4)"
        by (cases "GetTokPrecedence s3")
      have t4: "toks f s4 = toks f s3" using toks_GetTokPrecedence [OF gp2] .
      have b4: "binops s4 = ops" using binops_GetTokPrecedence [OF gp2] b3 by simp
      show ?thesis
      proof (cases "TokPrec < NextPrec")
        case nest: True
        with h False pp' obtain r5 s5
          where in5: "ParseBinOpRHS f n (TokPrec + 1) RHS s4 = Some (r5, s5)"
          by (auto simp: gp g gp2 split: option.splits)
        from h False pp' nest in5 obtain RHS1 where r5: "r5 = Some RHS1"
          by (cases r5) (auto simp: gp g gp2)
        note in5' = in5 [unfolded r5]
        from tp0 have "0 \<le> TokPrec + 1" by simp
        from B [OF b4 this in5'] obtain tr1
          where tr1: "binoprhs_toks ops tr1" "toks f s4 = tr1 @ toks f s5"
          by (auto simp: spans_def)
        have b5: "binops s5 = ops" using ParseBinOpRHS_binops [OF in5'] b4 by simp
        from h False pp' nest in5'
        have "ParseBinOpRHS f n p (BinaryExprAST (char_of (CurTok sa)) e RHS1) s5 = Some (Some e1, s1)"
          by (simp add: gp g gp2)
        from B [OF b5 p0 this] obtain tr2
          where tr2: "binoprhs_toks ops tr2" "toks f s5 = tr2 @ toks f s1"
            and lt: "fst (GetTokPrecedence s1) < p"
          by (auto simp: spans_def)
        have "binoprhs_toks ops (CurTok s # tp @ (tr1 @ tr2))"
          by (intro rhs_more op tp(1) binoprhs_toks_append tr1(1) tr2(1))
        moreover have "toks f s = (CurTok s # tp @ (tr1 @ tr2)) @ toks f s1"
          using t0 tp(2) t4 tr1(2) tr2(2) by simp
        ultimately have "spans f (binoprhs_toks ops) s s1" by (rule spansI)
        with lt show ?thesis by simp
      next
        case flat: False
        with h False pp'
        have "ParseBinOpRHS f n p (BinaryExprAST (char_of (CurTok sa)) e RHS) s4 = Some (Some e1, s1)"
          by (simp add: gp g gp2)
        from B [OF b4 p0 this] obtain tr2
          where tr2: "binoprhs_toks ops tr2" "toks f s4 = tr2 @ toks f s1"
            and lt: "fst (GetTokPrecedence s1) < p"
          by (auto simp: spans_def)
        have "binoprhs_toks ops (CurTok s # tp @ tr2)"
          by (intro rhs_more op tp(1) tr2(1))
        moreover have "toks f s = (CurTok s # tp @ tr2) @ toks f s1"
          using t0 tp(2) t4 tr2(2) by simp
        ultimately have "spans f (binoprhs_toks ops) s s1" by (rule spansI)
        with lt show ?thesis by simp
      qed
    qed
  qed
  have 6: "spans f (expression_toks ops) s s1 \<and> fst (GetTokPrecedence s1) < 0"
    if b: "binops s = ops" and h: "ParseExpression f (Suc n) s = Some (Some e, s1)" for s e s1
  proof -
    from h obtain r2 s2 where pp: "ParsePrimary f n s = Some (r2, s2)"
      by (auto split: option.splits)
    from h pp obtain LHS where r2: "r2 = Some LHS" by (cases r2) auto
    note pp' = pp [unfolded r2]
    from P [OF b pp'] obtain tp where tp: "primary_toks ops tp" "toks f s = tp @ toks f s2"
      by (auto simp: spans_def)
    have b2: "binops s2 = ops" using ParsePrimary_binops [OF pp'] b by simp
    from h pp' have "ParseBinOpRHS f n 0 LHS s2 = Some (Some e, s1)" by simp
    from B [OF b2 _ this] obtain tr
      where tr: "binoprhs_toks ops tr" "toks f s2 = tr @ toks f s1"
        and lt: "fst (GetTokPrecedence s1) < 0"
      by (auto simp: spans_def)
    have "toks f s = (tp @ tr) @ toks f s1" using tp(2) tr(2) by simp
    then have "spans f (expression_toks ops) s s1"
      by (rule spansI [rotated]) (rule expression [OF tp(1) tr(1)])
    with lt show ?thesis by simp
  qed
  show ?case using 1 2 3 4 5 6 by blast
qed


lemma not_binop_iff: "fst (GetTokPrecedence s) < 0 \<longleftrightarrow> \<not> binops s (CurTok s)"
  using GetTokPrecedence_fst [of s]
  by (auto simp: binops_def is_binop_def split: option.splits)

lemma proto_args_toks:
  "CurTok s \<noteq> tok_eof \<Longrightarrow>
   \<exists>k. toks f s = CurTok s # replicate k tok_identifier @ toks f (snd (proto_args f a s))"
proof (induction f a s rule: proto_args.induct)
  case (1 f a s)
  obtain t s1 where g: "getNextToken f s = (t, s1)" by (cases "getNextToken f s")
  have t0: "toks f s = CurTok s # toks f s1" using toks_getNextToken [OF "1.prems" g] .
  have c1: "CurTok s1 = t" using getNextToken_CurTok_lexer [OF g] by simp
  show ?case
  proof (cases "t = tok_identifier")
    case True
    with c1 have "CurTok s1 \<noteq> tok_eof" by simp
    from "1.IH" [OF g [symmetric] refl True this] obtain k
      where "toks f s1 = CurTok s1 # replicate k tok_identifier
               @ toks f (snd (proto_args f (a @ [IdentifierStr (lexer s1)]) s1))"
      by blast
    with t0 c1 True have "toks f s = CurTok s # replicate (Suc k) tok_identifier
               @ toks f (snd (proto_args f (a @ [IdentifierStr (lexer s1)]) s1))"
      by simp
    moreover have "proto_args f a s = proto_args f (a @ [IdentifierStr (lexer s1)]) s1"
      using True g by (subst proto_args.simps) simp
    ultimately show ?thesis by metis
  next
    case False
    then have "proto_args f a s = (a, s1)" using g by (subst proto_args.simps) simp
    with t0 have "toks f s = CurTok s # replicate 0 tok_identifier @ toks f (snd (proto_args f a s))"
      by simp
    then show ?thesis by blast
  qed
qed

lemma proto_args_table: "BinopPrecedence (snd (proto_args f a s)) = BinopPrecedence s"
proof (induction f a s rule: proto_args.induct)
  case (1 f a s)
  obtain t s1 where g: "getNextToken f s = (t, s1)" by (cases "getNextToken f s")
  have st: "BinopPrecedence s1 = BinopPrecedence s" using getNextToken_frame(1) [of f s] g by simp
  show ?case
  proof (cases "t = tok_identifier")
    case True
    with 1 [OF g [symmetric] refl True] g st show ?thesis
      by (subst proto_args.simps) simp
  next
    case False
    with g st show ?thesis by (subst proto_args.simps) simp
  qed
qed

lemma ParsePrototype_spans:
  assumes "ParsePrototype f s = (Some P, s1)"
  shows "spans f prototype_toks s s1 \<and> binops s1 = binops s"
proof -
  obtain t sa where g: "getNextToken f s = (t, sa)" by (cases "getNextToken f s")
  obtain names sb where pa: "proto_args f [] sa = (names, sb)" by (cases "proto_args f [] sa")
  obtain t3 sc where g3: "getNextToken f sb = (t3, sc)" by (cases "getNextToken f sb")
  from assms have c: "CurTok s = tok_identifier"
    by (auto simp: ParsePrototype_def LogErrorP_def LogError_def split: if_splits)
  with assms have ca: "CurTok sa = of_char CHR ''(''"
    by (auto simp: ParsePrototype_def g LogErrorP_def LogError_def split: if_splits)
  with assms c have cb: "CurTok sb = of_char CHR '')''"
    by (auto simp: ParsePrototype_def g pa LogErrorP_def LogError_def split: if_splits)
  with assms c ca have s1: "s1 = sc"
    by (auto simp: ParsePrototype_def g pa g3)
  have t0: "toks f s = tok_identifier # toks f sa" using toks_getNextToken [OF _ g] c by simp
  from proto_args_toks [of sa f "[]"] ca pa obtain k
    where ta: "toks f sa = of_char CHR ''('' # replicate k tok_identifier @ toks f sb"
    by auto
  have tb: "toks f sb = of_char CHR '')'' # toks f sc" using toks_getNextToken [OF _ g3] cb by simp
  have "toks f s = ([tok_identifier, of_char CHR ''(''] @ replicate k tok_identifier @ [of_char CHR '')''])
      @ toks f s1"
    using t0 ta tb s1 by simp
  moreover have "prototype_toks ([tok_identifier, of_char CHR ''(''] @ replicate k tok_identifier
      @ [of_char CHR '')''])"
    unfolding prototype_toks_def by blast
  ultimately have sp: "spans f prototype_toks s s1" by (intro spansI)
  have "BinopPrecedence sb = BinopPrecedence s"
    using proto_args_table [of f "[]" sa] pa getNextToken_frame(1) [of f s] g by simp
  then have "BinopPrecedence sc = BinopPrecedence s"
    using getNextToken_frame(1) [of f sb] g3 by simp
  with s1 sp show ?thesis by (simp add: binops_def)
qed

lemma ParsePrimary_spans:
  "ParsePrimary f n s = Some (Some e, s1) \<Longrightarrow> spans f (primary_toks (binops s)) s s1"
  using Parse_spans_all [of "binops s" f n] by simp

lemma ParseParenExpr_spans:
  "CurTok s = of_char CHR ''('' \<Longrightarrow> ParseParenExpr f n s = Some (Some e, s1) \<Longrightarrow>
   spans f (primary_toks (binops s)) s s1"
  using Parse_spans_all [of "binops s" f n] by simp

lemma ParseIdentifierExpr_spans:
  "CurTok s = tok_identifier \<Longrightarrow> ParseIdentifierExpr f n s = Some (Some e, s1) \<Longrightarrow>
   spans f (primary_toks (binops s)) s s1"
  using Parse_spans_all [of "binops s" f n] by simp

lemma ParseExpression_spans:
  assumes "ParseExpression f n s = Some (Some e, s1)"
  shows "spans f (expression_toks (binops s)) s s1 \<and> \<not> binops s (CurTok s1)"
proof -
  from Parse_spans_all [of "binops s" f n] assms
  have "spans f (expression_toks (binops s)) s s1 \<and> fst (GetTokPrecedence s1) < 0"
    by simp
  then have a: "spans f (expression_toks (binops s)) s s1" and b: "fst (GetTokPrecedence s1) < 0"
    by simp_all
  from b have "\<not> binops s1 (CurTok s1)" by (simp add: not_binop_iff)
  with a ParseExpression_binops [OF assms] show ?thesis by simp
qed

lemma ParseDefinition_spans:
  assumes "CurTok s = tok_def" "ParseDefinition f n s = Some (Some F, s1)"
  shows "spans f (definition_toks (binops s)) s s1 \<and> \<not> binops s (CurTok s1)"
proof -
  obtain t sa where g: "getNextToken f s = (t, sa)" by (cases "getNextToken f s")
  obtain r2 s2 where pr: "ParsePrototype f sa = (r2, s2)" by (cases "ParsePrototype f sa")
  from assms(2) obtain P where r2: "r2 = Some P"
    by (cases r2) (auto simp: ParseDefinition_def g pr)
  from assms(2) r2 obtain E where e: "ParseExpression f n s2 = Some (Some E, s1)"
    by (auto simp: ParseDefinition_def g pr split: option.splits)
  have t0: "toks f s = tok_def # toks f sa" using toks_getNextToken [OF _ g] assms(1) by simp
  from ParsePrototype_spans [OF pr [unfolded r2]] obtain tp
    where tp: "prototype_toks tp" "toks f sa = tp @ toks f s2" and b2: "binops s2 = binops sa"
    by (auto simp: spans_def)
  have bs: "binops s2 = binops s" using b2 binops_getNextToken [OF g] by simp
  from ParseExpression_spans [OF e] bs obtain te
    where te: "expression_toks (binops s) te" "toks f s2 = te @ toks f s1"
      and nb: "\<not> binops s (CurTok s1)"
    by (auto simp: spans_def)
  have "toks f s = (tok_def # tp @ te) @ toks f s1" using t0 tp(2) te(2) by simp
  moreover have "definition_toks (binops s) (tok_def # tp @ te)"
    unfolding definition_toks_def using tp(1) te(1) by blast
  ultimately have "spans f (definition_toks (binops s)) s s1" by (intro spansI)
  with nb show ?thesis by simp
qed

lemma ParseExtern_spans:
  assumes "CurTok s = tok_extern" "ParseExtern f s = (Some P, s1)"
  shows "spans f extern_toks s s1"
proof -
  obtain t sa where g: "getNextToken f s = (t, sa)" by (cases "getNextToken f s")
  from assms(2) have pr: "ParsePrototype f sa = (Some P, s1)" by (simp add: ParseExtern_def g)
  have t0: "toks f s = tok_extern # toks f sa" using toks_getNextToken [OF _ g] assms(1) by simp
  from ParsePrototype_spans [OF pr] obtain tp
    where tp: "prototype_toks tp" "toks f sa = tp @ toks f s1"
    by (auto simp: spans_def)
  have "toks f s = (tok_extern # tp) @ toks f s1" using t0 tp(2) by simp
  moreover have "extern_toks (tok_extern # tp)" unfolding extern_toks_def using tp(1) by blast
  ultimately show ?thesis by (intro spansI)
qed

lemma ParseTopLevelExpr_spans:
  assumes "ParseTopLevelExpr f n s = Some (Some F, s1)"
  shows "spans f (expression_toks (binops s)) s s1 \<and> \<not> binops s (CurTok s1)"
proof -
  from assms obtain E where "ParseExpression f n s = Some (Some E, s1)"
    by (auto simp: ParseTopLevelExpr_def split: option.splits)
  then show ?thesis by (rule ParseExpression_spans)
qed

subsection \<open>Nesting by precedence\<close>

lemma wellnested_no_equal_right_nesting: "wellnested pr e \<Longrightarrow> no_equal_right_nesting pr e"
  by (induction pr e rule: wellnested.induct) (auto split: option.splits)

lemma precs_getNextToken: "getNextToken f s = (t, s1) \<Longrightarrow> precs s1 = precs s"
  using getNextToken_frame(1) [of f s] by (simp add: precs_def)

lemma precs_GetTokPrecedence: "GetTokPrecedence s = (p, s1) \<Longrightarrow> precs s1 = precs s"
proof -
  assume a: "GetTokPrecedence s = (p, s1)"
  have t: "BinopPrecedence s1 =
     (if isascii (CurTok s) \<and> BinopPrecedence s (char_of (CurTok s)) = None
      then (BinopPrecedence s)(char_of (CurTok s) \<mapsto> 0) else BinopPrecedence s)"
    using GetTokPrecedence_table [of s] a by simp
  show ?thesis
  proof
    fix x
    show "precs s1 x = precs s x"
      unfolding precs_def t
      by (cases "x = char_of (CurTok s)") (auto simp: op_prec_def split: option.splits)
  qed
qed

lemma precs_LogError: "LogError m s = (r, s1) \<Longrightarrow> precs s1 = precs s"
  by (auto simp: LogError_def precs_def)

lemma GetTokPrecedence_precs:
  "isascii (CurTok s) \<Longrightarrow> fst (GetTokPrecedence s) = precs s (char_of (CurTok s))"
  by (simp add: GetTokPrecedence_fst precs_def op_prec_def)

lemma GetTokPrecedence_nonneg_ascii: "0 \<le> fst (GetTokPrecedence s) \<Longrightarrow> isascii (CurTok s)"
  by (auto simp: GetTokPrecedence_fst split: if_splits)

lemma Parse_precs_all:
  "(\<forall>s r s1. ParsePrimary f n s = Some (r, s1) \<longrightarrow> precs s1 = precs s)
   \<and> (\<forall>s r s1. ParseParenExpr f n s = Some (r, s1) \<longrightarrow> precs s1 = precs s)
   \<and> (\<forall>s r s1. ParseIdentifierExpr f n s = Some (r, s1) \<longrightarrow> precs s1 = precs s)
   \<and> (\<forall>a s r s1. ParseArgs f n a s = Some (r, s1) \<longrightarrow> precs s1 = precs s)
   \<and> (\<forall>p e s r s1. ParseBinOpRHS f n p e s = Some (r, s1) \<longrightarrow> precs s1 = precs s)
   \<and> (\<forall>s r s1. ParseExpression f n s = Some (r, s1) \<longrightarrow> precs s1 = precs s)"
proof (induction n)
  case 0
  show ?case by simp
next
  case (Suc n)
  from Suc have P: "precs s1 = precs s" if "ParsePrimary f n s = Some (r, s1)" for s r s1
    using that by simp
  from Suc have R: "precs s1 = precs s" if "ParseParenExpr f n s = Some (r, s1)" for s r s1
    using that by simp
  from Suc have I: "precs s1 = precs s" if "ParseIdentifierExpr f n s = Some (r, s1)" for s r s1
    using that by simp
  from Suc have A: "precs s1 = precs s" if "ParseArgs f n a s = Some (r, s1)" for a s r s1
    using that by simp
  from Suc have B: "precs s1 = precs s" if "ParseBinOpRHS f n p e s = Some (r, s1)" for p e s r s1
    using that by simp
  from Suc have E: "precs s1 = precs s" if "ParseExpression f n s = Some (r, s1)" for s r s1
    using that by simp
  have 1: "precs s1 = precs s" if h: "ParsePrimary f (Suc n) s = Some (r, s1)" for s r s1
    using h
    by (auto simp: ParseNumberExpr_def split: prod.splits if_splits
        dest: I R precs_getNextToken precs_LogError)
  have 2: "precs s1 = precs s" if h: "ParseParenExpr f (Suc n) s = Some (r, s1)" for s r s1
    using h
    by (auto simp: Let_def split: prod.splits option.splits if_splits
        dest!: E precs_getNextToken precs_LogError)
  have 3: "precs s1 = precs s" if h: "ParseIdentifierExpr f (Suc n) s = Some (r, s1)" for s r s1
    using h
    by (auto simp: Let_def split: prod.splits option.splits if_splits
        dest!: A precs_getNextToken)
  have 4: "precs s1 = precs s" if h: "ParseArgs f (Suc n) a s = Some (r, s1)" for a s r s1
    using h
    by (auto simp: Let_def split: prod.splits option.splits if_splits
        dest!: A E precs_getNextToken precs_LogError)
  have 5: "precs s1 = precs s" if h: "ParseBinOpRHS f (Suc n) p e s = Some (r, s1)" for p e s r s1
    using h
    by (auto simp: Let_def split: prod.splits option.splits if_splits
        dest!: B P precs_getNextToken precs_GetTokPrecedence)
  have 6: "precs s1 = precs s" if h: "ParseExpression f (Suc n) s = Some (r, s1)" for s r s1
    using h
    by (auto simp: Let_def split: prod.splits option.splits if_splits dest!: B P)
  show ?case using 1 2 3 4 5 6 by blast
qed

lemma ParsePrimary_precs: "ParsePrimary f n s = Some (r, s1) \<Longrightarrow> precs s1 = precs s"
  using Parse_precs_all [of f n] by simp

lemma ParseBinOpRHS_precs: "ParseBinOpRHS f n p e s = Some (r, s1) \<Longrightarrow> precs s1 = precs s"
  using Parse_precs_all [of f n] by simp

lemma ParseBinOpRHS_spans:
  "0 \<le> p \<Longrightarrow> ParseBinOpRHS f n p e s = Some (Some e1, s1) \<Longrightarrow>
   spans f (binoprhs_toks (binops s)) s s1 \<and> fst (GetTokPrecedence s1) < p"
  using Parse_spans_all [of "binops s" f n] by simp


lemma spans_suffix: "spans f g s s1 \<Longrightarrow> set (toks f s1) \<subseteq> set (toks f s)"
  by (auto simp: spans_def)

lemma toks_head: "CurTok s \<noteq> tok_eof \<Longrightarrow> CurTok s \<in> set (toks f s)"
  by (simp add: toks_def)

lemma ParsePrimary_atomic:
  assumes "ParsePrimary f n s = Some (Some e, s1)" "of_char CHR ''('' \<notin> set (toks f s)"
  shows "root_prec pr e = None \<and> wellnested pr e"
proof (cases n)
  case 0
  with assms show ?thesis by simp
next
  case (Suc k)
  have np: "CurTok s \<noteq> of_char CHR ''(''" using assms(2) toks_head [of s f] by auto
  consider (id) "CurTok s = tok_identifier"
    | (num) "CurTok s \<noteq> tok_identifier" "CurTok s = tok_number"
    | (err) "CurTok s \<noteq> tok_identifier" "CurTok s \<noteq> tok_number"
    by blast
  then show ?thesis
  proof cases
    case id
    with assms(1) Suc have i: "ParseIdentifierExpr f k s = Some (Some e, s1)" by simp
    obtain t sa where g: "getNextToken f s = (t, sa)" by (cases "getNextToken f s")
    have "toks f s = tok_identifier # toks f sa" using toks_getNextToken [OF _ g] id by simp
    with assms(2) have "of_char CHR ''('' \<notin> set (toks f sa)" by simp
    then have "CurTok sa \<noteq> of_char CHR ''(''" using toks_head [of sa f] by auto
    with i show ?thesis by (cases k) (auto simp: g Let_def)
  next
    case num
    with assms(1) Suc show ?thesis by (auto simp: ParseNumberExpr_def split: prod.splits)
  next
    case err
    with assms(1) Suc np show ?thesis by (simp add: LogError_def)
  qed
qed

lemma ParseBinOpRHS_wellnested:
  "\<forall>p lhs s e s1. precs s = pr \<longrightarrow> 0 \<le> p \<longrightarrow> of_char CHR ''('' \<notin> set (toks f s) \<longrightarrow>
     wellnested pr lhs \<longrightarrow>
     (case root_prec pr lhs of None \<Rightarrow> True | Some q \<Rightarrow> fst (GetTokPrecedence s) \<le> q) \<longrightarrow>
     ParseBinOpRHS f n p lhs s = Some (Some e, s1) \<longrightarrow>
     wellnested pr e \<and> (e = lhs \<or> (case root_prec pr e of None \<Rightarrow> False | Some q \<Rightarrow> p \<le> q))"
proof (induction n)
  case 0
  show ?case by simp
next
  case (Suc n)
  from Suc have B: "wellnested pr e \<and> (e = lhs \<or> (case root_prec pr e of None \<Rightarrow> False | Some q \<Rightarrow> p \<le> q))"
    if "precs s = pr" "0 \<le> p" "of_char CHR ''('' \<notin> set (toks f s)" "wellnested pr lhs"
      "case root_prec pr lhs of None \<Rightarrow> True | Some q \<Rightarrow> fst (GetTokPrecedence s) \<le> q"
      "ParseBinOpRHS f n p lhs s = Some (Some e, s1)" for p lhs s e s1
    using that by blast
  show ?case
  proof (intro allI impI)
    fix p lhs s e s1
    assume b: "precs s = pr" and p0: "0 \<le> p" and nopar: "of_char CHR ''('' \<notin> set (toks f s)"
      and wl: "wellnested pr lhs"
      and rl: "case root_prec pr lhs of None \<Rightarrow> True | Some q \<Rightarrow> fst (GetTokPrecedence s) \<le> q"
      and h: "ParseBinOpRHS f (Suc n) p lhs s = Some (Some e, s1)"
    obtain TokPrec sa where gp: "GetTokPrecedence s = (TokPrec, sa)" by (cases "GetTokPrecedence s")
    have ta: "toks f sa = toks f s" using toks_GetTokPrecedence [OF gp] .
    have ba: "precs sa = pr" using precs_GetTokPrecedence [OF gp] b by simp
    have ca: "CurTok sa = CurTok s" using GetTokPrecedence_CurTok [of s] gp by simp
    show "wellnested pr e \<and> (e = lhs \<or> (case root_prec pr e of None \<Rightarrow> False | Some q \<Rightarrow> p \<le> q))"
    proof (cases "TokPrec < p")
      case True
      with h have "e = lhs" by (simp add: gp)
      with wl show ?thesis by simp
    next
      case False
      with p0 have tp0: "0 \<le> TokPrec" by simp
      have asc: "isascii (CurTok s)" using GetTokPrecedence_nonneg_ascii [of s] gp tp0 by simp
      then have ne: "CurTok s \<noteq> tok_eof" by (auto simp: isascii_def)
      have prc: "pr (char_of (CurTok s)) = TokPrec"
        using GetTokPrecedence_precs [OF asc] gp b by simp
      obtain t sb where g: "getNextToken f sa = (t, sb)" by (cases "getNextToken f sa")
      have t0: "toks f s = CurTok s # toks f sb" using toks_getNextToken [OF _ g] ne ca ta by simp
      have bb: "precs sb = pr" using precs_getNextToken [OF g] ba by simp
      have nb: "of_char CHR ''('' \<notin> set (toks f sb)" using nopar t0 by simp
      from h False obtain r3 s3 where pp: "ParsePrimary f n sb = Some (r3, s3)"
        by (auto simp: gp g split: option.splits)
      from h False pp obtain RHS where r3: "r3 = Some RHS" by (cases r3) (auto simp: gp g)
      note pp' = pp [unfolded r3]
      have at: "root_prec pr RHS = None" "wellnested pr RHS"
        using ParsePrimary_atomic [OF pp' nb, of pr] by simp_all
      have b3: "precs s3 = pr" using ParsePrimary_precs [OF pp'] bb by simp
      have n3: "of_char CHR ''('' \<notin> set (toks f s3)"
        using spans_suffix [OF ParsePrimary_spans [OF pp']] nb by blast
      obtain NextPrec s4 where gp2: "GetTokPrecedence s3 = (NextPrec, s4)"
        by (cases "GetTokPrecedence s3")
      have t4: "toks f s4 = toks f s3" using toks_GetTokPrecedence [OF gp2] .
      have b4: "precs s4 = pr" using precs_GetTokPrecedence [OF gp2] b3 by simp
      have n4: "of_char CHR ''('' \<notin> set (toks f s4)" using n3 t4 by simp
      have np4: "fst (GetTokPrecedence s4) = NextPrec"
        using GetTokPrecedence_again [of s3] gp2 by simp
      have rlq: "case root_prec pr lhs of None \<Rightarrow> True | Some q \<Rightarrow> TokPrec \<le> q"
        using rl gp by (simp split: option.splits)
      show ?thesis
      proof (cases "TokPrec < NextPrec")
        case nest: True
        with h False pp' obtain r5 s5
          where in5: "ParseBinOpRHS f n (TokPrec + 1) RHS s4 = Some (r5, s5)"
          by (auto simp: gp g gp2 split: option.splits)
        from h False pp' nest in5 obtain RHS1 where r5: "r5 = Some RHS1"
          by (cases r5) (auto simp: gp g gp2)
        note in5' = in5 [unfolded r5]
        from tp0 have t1: "0 \<le> TokPrec + 1" by simp
        have "wellnested pr RHS1
            \<and> (RHS1 = RHS \<or> (case root_prec pr RHS1 of None \<Rightarrow> False | Some q \<Rightarrow> TokPrec + 1 \<le> q))"
          using at by (intro B [OF b4 t1 n4 _ _ in5']) simp_all
        then have w1: "wellnested pr RHS1"
          and r1: "case root_prec pr RHS1 of None \<Rightarrow> True | Some q \<Rightarrow> TokPrec < q"
          using at(1) by (auto split: option.splits)
        have b5: "precs s5 = pr" using ParseBinOpRHS_precs [OF in5'] b4 by simp
        have sp5: "spans f (binoprhs_toks (binops s4)) s4 s5 \<and> fst (GetTokPrecedence s5) < TokPrec + 1"
          using t1 in5' by (rule ParseBinOpRHS_spans)
        then have n5: "of_char CHR ''('' \<notin> set (toks f s5)"
          using spans_suffix [of f _ s4 s5] n4 by blast
        let ?l = "BinaryExprAST (char_of (CurTok s)) lhs RHS1"
        have wl2: "wellnested pr ?l" using wl w1 r1 rlq prc by (auto split: option.splits)
        have rl2: "case root_prec pr ?l of None \<Rightarrow> True | Some q \<Rightarrow> fst (GetTokPrecedence s5) \<le> q"
          using sp5 prc by simp
        from h False pp' nest in5' ca
        have "ParseBinOpRHS f n p ?l s5 = Some (Some e, s1)"
          by (simp add: gp g gp2)
        from B [OF b5 p0 n5 wl2 rl2 this]
        have "wellnested pr e \<and> (e = ?l \<or> (case root_prec pr e of None \<Rightarrow> False | Some q \<Rightarrow> p \<le> q))" .
        moreover have "p \<le> pr (char_of (CurTok s))" using prc False by simp
        ultimately show ?thesis by auto
      next
        case flat: False
        let ?l = "BinaryExprAST (char_of (CurTok s)) lhs RHS"
        have wl2: "wellnested pr ?l" using wl at rlq prc by (auto split: option.splits)
        have rl2: "case root_prec pr ?l of None \<Rightarrow> True | Some q \<Rightarrow> fst (GetTokPrecedence s4) \<le> q"
          using flat np4 prc by simp
        from h False pp' flat ca
        have "ParseBinOpRHS f n p ?l s4 = Some (Some e, s1)"
          by (simp add: gp g gp2)
        from B [OF b4 p0 n4 wl2 rl2 this]
        have "wellnested pr e \<and> (e = ?l \<or> (case root_prec pr e of None \<Rightarrow> False | Some q \<Rightarrow> p \<le> q))" .
        moreover have "p \<le> pr (char_of (CurTok s))" using prc False by simp
        ultimately show ?thesis by auto
      qed
    qed
  qed
qed

lemma ParseExpression_wellnested:
  assumes "ParseExpression f n s = Some (Some e, s1)" "of_char CHR ''('' \<notin> set (toks f s)"
  shows "wellnested (precs s) e"
proof (cases n)
  case 0
  with assms show ?thesis by simp
next
  case (Suc k)
  from assms(1) Suc obtain r2 s2 where pp: "ParsePrimary f k s = Some (r2, s2)"
    by (auto split: option.splits)
  from assms(1) Suc pp obtain LHS where r2: "r2 = Some LHS" by (cases r2) auto
  note pp' = pp [unfolded r2]
  have at: "root_prec (precs s) LHS = None" "wellnested (precs s) LHS"
    using ParsePrimary_atomic [OF pp' assms(2), of "precs s"] by simp_all
  have b2: "precs s2 = precs s" using ParsePrimary_precs [OF pp'] .
  have n2: "of_char CHR ''('' \<notin> set (toks f s2)"
    using spans_suffix [OF ParsePrimary_spans [OF pp']] assms(2) by blast
  from assms(1) Suc pp' have "ParseBinOpRHS f k 0 LHS s2 = Some (Some e, s1)" by simp
  from ParseBinOpRHS_wellnested [of "precs s" f k, rule_format, OF b2 _ n2 at(2) _ this] at(1)
  show ?thesis by simp
qed

subsection \<open>Chains of operators of one precedence\<close>

lemma gettok_symbol:
  assumes "LastChar l = c" "\<not> isspace c" "\<not> isalpha c" "\<not> isdigit c" "c \<noteq> 46" "c \<noteq> 35" "c \<noteq> EOF"
  shows "gettok f l = (c, next_char l)"
  using assms by (subst gettok.simps) (simp add: skip_space_id Let_def)

lemma op_char_class:
  assumes "main_table o1 = Some p"
  shows "\<not> isspace (of_char o1)" "\<not> isalpha (of_char o1)" "\<not> isdigit (of_char o1)"
    "(of_char o1 :: int) \<noteq> 46" "(of_char o1 :: int) \<noteq> 35" "isascii (of_char o1)" "0 < p"
    "\<not> is_number_char o1"
  using main_table_dom [OF assms] assms
  by (auto simp: isspace_def isalpha_def isdigit_def isascii_def main_table_def is_number_char_def)

lemma chain_input_Cons: "chain_input (o1 # os) = o1 # CHR ''1'' # chain_input os"
  by (simp add: chain_input_def)

lemma chain_input_rest:
  "\<forall>o1\<in>set os. main_table o1 = Some p \<Longrightarrow>
   chain_input os = [] \<or> \<not> is_number_char (hd (chain_input os))"
  by (cases os) (auto simp: chain_input_def dest: op_char_class(8))

lemma GetTokPrecedence_chain_state:
  assumes "\<forall>o1\<in>set os. main_table o1 = Some p"
  shows "GetTokPrecedence (chain_state f os) =
     ((case os of [] \<Rightarrow> - 1 | _ # _ \<Rightarrow> p), chain_state f os)"
proof (cases os)
  case Nil
  then show ?thesis by (simp add: GetTokPrecedence_def chain_state_def)
next
  case (Cons o1 os1)
  with assms have m: "main_table o1 = Some p" by simp
  from op_char_class(6,7) [OF m] m Cons show ?thesis
    by (simp add: GetTokPrecedence_def chain_state_def map_subscript_def)
qed

text \<open>Eating the operator of a chain state and then the operand \<open>1\<close>.\<close>

lemma chain_step_number:
  assumes "\<forall>o1\<in>set os. main_table o1 = Some p"
  shows "getNextToken f (chain_state f (o1 # os)) =
     (tok_number,
      (chain_operand_state f os))"
proof -
  let ?l = "\<lparr>LastChar = of_char CHR ''1'', stdin = chain_input os, IdentifierStr = [],
             NumVal = f ''1''\<rparr>"
  have "gettok f ?l = (tok_number, (lexer_at ?l (chain_input os))\<lparr>NumVal := f (CHR ''1'' # [])\<rparr>)"
    using chain_input_rest [OF assms]
    by (intro gettok_number_run) (simp_all add: is_number_char_def isdigit_def)
  then show ?thesis
    by (simp add: getNextToken_def chain_state_def chain_operand_state_def lexer_at_def)
qed

lemma chain_step_operator:
  assumes "\<forall>o1\<in>set os. main_table o1 = Some p"
  shows "getNextToken f
     (chain_operand_state f os) =
     ((case os of [] \<Rightarrow> tok_eof | o2 # _ \<Rightarrow> of_char o2), chain_state f os)"
proof (cases os)
  case Nil
  then show ?thesis
    by (simp add: getNextToken_def chain_input_def lexer_at_def gettok_at_EOF chain_state_def
        chain_operand_state_def)
next
  case (Cons o2 os2)
  with assms have m: "main_table o2 = Some p" by simp
  let ?l = "\<lparr>LastChar = of_char o2, stdin = CHR ''1'' # chain_input os2, IdentifierStr = [],
             NumVal = f ''1''\<rparr>"
  have "gettok f ?l = (of_char o2, next_char ?l)"
    using op_char_class [OF m] by (intro gettok_symbol) simp_all
  then show ?thesis using Cons
    by (simp add: getNextToken_def chain_input_Cons lexer_at_def chain_state_def next_char_def
        getchar_def chain_operand_state_def)
qed

lemma chain_operand_state_simps:
  "CurTok (chain_operand_state f os) = tok_number"
  "NumVal (lexer (chain_operand_state f os)) = f ''1''"
  by (simp_all add: chain_operand_state_def)

lemma ParsePrimary_chain_operand:
  assumes "\<forall>o1\<in>set os. main_table o1 = Some p" "0 < m"
  shows "ParsePrimary f m (chain_operand_state f os) =
     Some (Some (NumberExprAST (f ''1'')), chain_state f os)"
proof -
  from assms(2) obtain m1 where "m = Suc m1" by (cases m) auto
  then show ?thesis
    by (simp add: ParseNumberExpr_def chain_step_operator [OF assms(1)] chain_operand_state_simps)
qed

lemma ParseBinOpRHS_chain:
  assumes "\<forall>o1\<in>set os. main_table o1 = Some p" "length os < m"
  shows "ParseBinOpRHS f m 0 lhs (chain_state f os) =
     Some (Some (chain_tree f lhs os), chain_state f [])"
  using assms
proof (induction os arbitrary: lhs m)
  case Nil
  then obtain m1 where "m = Suc m1" by (cases m) auto
  then show ?case
    using GetTokPrecedence_chain_state [of "[]" p f] by (simp add: chain_tree_def)
next
  case (Cons o1 os)
  then have all: "\<forall>o1\<in>set os. main_table o1 = Some p" and m: "main_table o1 = Some p"
    by simp_all
  from Cons.prems(2) obtain m1 where m1: "m = Suc m1" "length os < m1" by (cases m) auto
  have gp: "GetTokPrecedence (chain_state f (o1 # os)) = (p, chain_state f (o1 # os))"
    using GetTokPrecedence_chain_state [OF Cons.prems(1), of f] by simp
  have p0: "\<not> p < 0" using op_char_class(7) [OF m] by simp
  have gp2: "GetTokPrecedence (chain_state f os) =
      ((case os of [] \<Rightarrow> - 1 | _ # _ \<Rightarrow> p), chain_state f os)"
    using GetTokPrecedence_chain_state [OF all, of f] .
  have np: "\<not> p < (case os of [] \<Rightarrow> - 1 | _ # _ \<Rightarrow> p)"
    using p0 by (cases os) simp_all
  have pr: "ParsePrimary f m1 (chain_operand_state f os) =
     Some (Some (NumberExprAST (f ''1'')), chain_state f os)"
    using m1(2) by (intro ParsePrimary_chain_operand [OF all]) simp
  have c: "CurTok (chain_state f (o1 # os)) = of_char o1" by (simp add: chain_state_def)
  have "ParseBinOpRHS f (Suc m1) 0 lhs (chain_state f (o1 # os)) =
      ParseBinOpRHS f m1 0 (BinaryExprAST o1 lhs (NumberExprAST (f ''1''))) (chain_state f os)"
    using p0 np by (simp add: gp chain_step_number [OF all] pr gp2 c)
  also have "\<dots> = Some (Some (chain_tree f (BinaryExprAST o1 lhs (NumberExprAST (f ''1''))) os),
      chain_state f [])"
    using all m1(2) by (rule Cons.IH)
  finally show ?case by (simp add: chain_tree_def m1(1))
qed

lemma main_init_chain:
  fixes f :: "string \<Rightarrow> 'v::zero"
  assumes "\<forall>o1\<in>set os. main_table o1 = Some p"
  shows "main_init f (''1'' @ chain_input os) =
      (chain_operand_state f os)"
proof -
  let ?l = "lexer ((start (''1'' @ chain_input os) :: 'v state)\<lparr>BinopPrecedence := main_table\<rparr>)"
  have "gettok f ?l = (tok_number, (lexer_at ?l (chain_input os))\<lparr>NumVal := f (CHR ''1'' # [])\<rparr>)"
    using chain_input_rest [OF assms]
    by (intro gettok_start_number_run) (simp_all add: start_def is_number_char_def isdigit_def)
  then show ?thesis
    by (simp add: main_init_def getNextToken_def start_def lexer_at_def chain_operand_state_def)
qed

lemma ParseExpression_chain:
  fixes f :: "string \<Rightarrow> 'v::zero"
  assumes "\<forall>o1\<in>set os. main_table o1 = Some p" "length os + 3 \<le> n"
  shows "outcome (ParseExpression f n (main_init f (''1'' @ chain_input os))) =
     Some (Some (chain_tree f (NumberExprAST (f ''1'')) os), [], tok_eof)"
proof -
  from assms(2) obtain n1 where n: "n = Suc n1" "length os < n1" "0 < n1" by (cases n) auto
  have pr: "ParsePrimary f n1 (main_init f (CHR ''1'' # chain_input os))
     = Some (Some (NumberExprAST (f ''1'')), chain_state f os)"
    using main_init_chain [OF assms(1), of f] ParsePrimary_chain_operand [OF assms(1) n(3), of f]
    by simp
  have "ParseExpression f (Suc n1) (main_init f (''1'' @ chain_input os)) =
      ParseBinOpRHS f n1 0 (NumberExprAST (f ''1'')) (chain_state f os)"
    by (simp add: pr)
  also have "\<dots> = Some (Some (chain_tree f (NumberExprAST (f ''1'')) os), chain_state f [])"
    using assms(1) n(2) by (rule ParseBinOpRHS_chain)
  finally show ?thesis by (simp add: outcome_def chain_state_def n(1))
qed

section \<open>The claims\<close>

text \<open>
  C1. With the table of \<open>main\<close>, on every fuel that suffices, \<open>1+2*3\<close> parses to
  \<open>+(1, *(2, 3))\<close> and \<open>1*2+3\<close> to \<open>+(*(1, 2), 3)\<close>; and for any two operators of the table
  with different precedences, \<open>1 o1 2 o2 3\<close> parses to \<open>o1(1, o2(2, 3))\<close> when \<open>o2\<close> binds
  tighter than \<open>o1\<close> and to \<open>o2(o1(1, 2), 3)\<close> when it binds less tightly: the operator of
  higher precedence is always the deeper node. Each number leaf holds what \<open>strtod\<close>
  returns for its text. All input is consumed and nothing is written to standard error.
  In general, for any state and any table: when no left parenthesis is ahead, so that
  every operand is a number or a variable, the tree that \<open>ParseExpression\<close> returns is
  well nested, that is, at every operator node the operator at the root of the right
  operand has strictly higher precedence and the operator at the root of the left
  operand has precedence at least as high.
\<close>

theorem higher_precedence_nests_deeper:
  fixes strtod :: "string \<Rightarrow> 'v::{zero,equal}"
  shows "(\<forall>n\<ge>8.
     outcome (ParseExpression strtod n (main_init strtod ''1+2*3'')) =
       Some (Some (BinaryExprAST CHR ''+'' (NumberExprAST (strtod ''1''))
                    (BinaryExprAST CHR ''*'' (NumberExprAST (strtod ''2''))
                       (NumberExprAST (strtod ''3'')))), [], tok_eof)
     \<and> outcome (ParseExpression strtod n (main_init strtod ''1*2+3'')) =
       Some (Some (BinaryExprAST CHR ''+''
                    (BinaryExprAST CHR ''*'' (NumberExprAST (strtod ''1''))
                       (NumberExprAST (strtod ''2'')))
                    (NumberExprAST (strtod ''3''))), [], tok_eof)
     \<and> (\<forall>o1 o2 p1 p2. main_table o1 = Some p1 \<and> main_table o2 = Some p2 \<and> p1 \<noteq> p2 \<longrightarrow>
          outcome (ParseExpression strtod n
                     (main_init strtod (''1'' @ [o1] @ ''2'' @ [o2] @ ''3''))) =
            Some (Some (three_operands strtod o1 o2 (p1 < p2)), [], tok_eof)))
   \<and> (of_char CHR ''('' \<notin> set (toks strtod s) \<and> ParseExpression strtod k s = Some (Some e, s1)
        \<longrightarrow> wellnested (precs s) e)"
proof (intro allI impI conjI)
  assume "of_char CHR ''('' \<notin> set (toks strtod s) \<and> ParseExpression strtod k s = Some (Some e, s1)"
  then show "wellnested (precs s) e" using ParseExpression_wellnested [of strtod k s e s1] by blast
next
  fix n :: nat
  assume n: "8 \<le> n"
  have "outcome (ParseExpression strtod 8 (main_init strtod ''1+2*3'')) =
       Some (Some (BinaryExprAST CHR ''+'' (NumberExprAST (strtod ''1''))
                    (BinaryExprAST CHR ''*'' (NumberExprAST (strtod ''2''))
                       (NumberExprAST (strtod ''3'')))), [], tok_eof)"
    by code_simp
  from outcome_ParseExpression_mono [OF this n]
  show "outcome (ParseExpression strtod n (main_init strtod ''1+2*3'')) =
       Some (Some (BinaryExprAST CHR ''+'' (NumberExprAST (strtod ''1''))
                    (BinaryExprAST CHR ''*'' (NumberExprAST (strtod ''2''))
                       (NumberExprAST (strtod ''3'')))), [], tok_eof)" .
  have "outcome (ParseExpression strtod 8 (main_init strtod ''1*2+3'')) =
       Some (Some (BinaryExprAST CHR ''+''
                    (BinaryExprAST CHR ''*'' (NumberExprAST (strtod ''1''))
                       (NumberExprAST (strtod ''2'')))
                    (NumberExprAST (strtod ''3''))), [], tok_eof)"
    by code_simp
  from outcome_ParseExpression_mono [OF this n]
  show "outcome (ParseExpression strtod n (main_init strtod ''1*2+3'')) =
       Some (Some (BinaryExprAST CHR ''+''
                    (BinaryExprAST CHR ''*'' (NumberExprAST (strtod ''1''))
                       (NumberExprAST (strtod ''2'')))
                    (NumberExprAST (strtod ''3''))), [], tok_eof)" .
next
  fix n :: nat and o1 o2 p1 p2
  assume n: "8 \<le> n"
    and t: "main_table o1 = Some p1 \<and> main_table o2 = Some p2 \<and> p1 \<noteq> p2"
  from t have d: "o1 \<in> {CHR ''<'', CHR ''+'', CHR ''-'', CHR ''*''}"
      "o2 \<in> {CHR ''<'', CHR ''+'', CHR ''-'', CHR ''*''}"
    by (blast dest: main_table_dom)+
  from t have "the (main_table o1) = p1" "the (main_table o2) = p2" by simp_all
  with two_operators_eval [OF d, of strtod]
  have "outcome (ParseExpression strtod 8 (main_init strtod (''1'' @ [o1] @ ''2'' @ [o2] @ ''3''))) =
     Some (Some (three_operands strtod o1 o2 (p1 < p2)), [], tok_eof)"
    by simp
  from outcome_ParseExpression_mono [OF this n]
  show "outcome (ParseExpression strtod n (main_init strtod (''1'' @ [o1] @ ''2'' @ [o2] @ ''3''))) =
     Some (Some (three_operands strtod o1 o2 (p1 < p2)), [], tok_eof)" .
qed

theorem higher_precedence_nests_deeper_witness:
  "(8::nat) \<le> 9
   \<and> outcome (ParseExpression strtod_decimal 9 (main_init strtod_decimal ''1+2*3'')) =
       Some (Some (BinaryExprAST CHR ''+'' (NumberExprAST 1)
                    (BinaryExprAST CHR ''*'' (NumberExprAST 2) (NumberExprAST 3))), [], tok_eof)
   \<and> main_table CHR ''<'' = Some 10 \<and> main_table CHR ''-'' = Some 20 \<and> (10::int) \<noteq> 20
   \<and> outcome (ParseExpression strtod_decimal 9 (main_init strtod_decimal ''1<2-3'')) =
       Some (Some (BinaryExprAST CHR ''<'' (NumberExprAST 1)
                    (BinaryExprAST CHR ''-'' (NumberExprAST 2) (NumberExprAST 3))), [], tok_eof)
   \<and> of_char CHR ''('' \<notin> set (toks strtod_decimal (main_init strtod_decimal ''1+2*3''))
   \<and> wellnested (precs (main_init strtod_decimal ''1+2*3''))
        (BinaryExprAST CHR ''+'' (NumberExprAST (1::rat))
           (BinaryExprAST CHR ''*'' (NumberExprAST 2) (NumberExprAST 3)))"
proof -
  let ?s = "main_init strtod_decimal ''1+2*3''"
  have m: "main_table CHR ''<'' = Some 10" "main_table CHR ''-'' = Some 20"
    by (simp_all add: main_table_def)
  note t = higher_precedence_nests_deeper [where strtod = strtod_decimal]
  from t [THEN conjunct1, rule_format, of 9]
  have a: "outcome (ParseExpression strtod_decimal 9 ?s) =
       Some (Some (BinaryExprAST CHR ''+'' (NumberExprAST 1)
                    (BinaryExprAST CHR ''*'' (NumberExprAST 2) (NumberExprAST 3))), [], tok_eof)"
    and b: "\<And>o1 o2 p1 p2. main_table o1 = Some p1 \<and> main_table o2 = Some p2 \<and> p1 \<noteq> p2 \<Longrightarrow>
          outcome (ParseExpression strtod_decimal 9
                     (main_init strtod_decimal (''1'' @ [o1] @ ''2'' @ [o2] @ ''3''))) =
            Some (Some (three_operands strtod_decimal o1 o2 (p1 < p2)), [], tok_eof)"
    by (simp_all add: strtod_decimal_123)
  from b [of "CHR ''<''" 10 "CHR ''-''" 20] m
  have c: "outcome (ParseExpression strtod_decimal 9 (main_init strtod_decimal ''1<2-3'')) =
       Some (Some (BinaryExprAST CHR ''<'' (NumberExprAST 1)
                    (BinaryExprAST CHR ''-'' (NumberExprAST 2) (NumberExprAST 3))), [], tok_eof)"
    by (simp add: three_operands_def strtod_decimal_123)
  have np: "of_char CHR ''('' \<notin> set (toks strtod_decimal ?s)" by code_simp
  from a obtain s1 where "ParseExpression strtod_decimal 9 ?s =
      Some (Some (BinaryExprAST CHR ''+'' (NumberExprAST 1)
                    (BinaryExprAST CHR ''*'' (NumberExprAST 2) (NumberExprAST 3))), s1)"
    by (auto simp: outcome_def)
  with t [THEN conjunct2, of ?s 9 _ s1] np
  have d: "wellnested (precs ?s)
        (BinaryExprAST CHR ''+'' (NumberExprAST (1::rat))
           (BinaryExprAST CHR ''*'' (NumberExprAST 2) (NumberExprAST 3)))"
    by blast
  from a c m np d show ?thesis by simp
qed

text \<open>
  C2. With the table of \<open>main\<close>, on every fuel that suffices, \<open>1+2+3\<close> parses to the
  left-nested \<open>+(+(1, 2), 3)\<close> and not to the right-nested \<open>+(1, +(2, 3))\<close>; the same holds
  for any two operators of the table with equal precedence: \<open>1 o1 2 o2 3\<close> parses to
  \<open>o2(o1(1, 2), 3)\<close>. And a chain \<open>1 c1 1 c2 1 ...\<close> of any length, whose operators all have
  the same precedence in the table, parses to the left-nested tree over its operators.
  In general, for any state and any table: when no left parenthesis is ahead, the tree
  that \<open>ParseExpression\<close> returns has no operator node whose right operand is an operator
  node of the same precedence, so operators of equal precedence never nest to the right.
\<close>

theorem equal_precedence_groups_left:
  fixes strtod :: "string \<Rightarrow> 'v::{zero,equal}"
  shows "(of_char CHR ''('' \<notin> set (toks strtod s) \<and> ParseExpression strtod k s = Some (Some e, s1)
        \<longrightarrow> no_equal_right_nesting (precs s) e)
   \<and> (\<forall>n\<ge>8.
     outcome (ParseExpression strtod n (main_init strtod ''1+2+3'')) =
       Some (Some (BinaryExprAST CHR ''+''
                    (BinaryExprAST CHR ''+'' (NumberExprAST (strtod ''1''))
                       (NumberExprAST (strtod ''2'')))
                    (NumberExprAST (strtod ''3''))), [], tok_eof)
     \<and> map_option fst (ParseExpression strtod n (main_init strtod ''1+2+3'')) \<noteq>
         Some (Some (BinaryExprAST CHR ''+'' (NumberExprAST (strtod ''1''))
                      (BinaryExprAST CHR ''+'' (NumberExprAST (strtod ''2''))
                         (NumberExprAST (strtod ''3'')))))
     \<and> (\<forall>o1 o2 p. main_table o1 = Some p \<and> main_table o2 = Some p \<longrightarrow>
          outcome (ParseExpression strtod n
                     (main_init strtod (''1'' @ [o1] @ ''2'' @ [o2] @ ''3''))) =
            Some (Some (BinaryExprAST o2
                         (BinaryExprAST o1 (NumberExprAST (strtod ''1''))
                            (NumberExprAST (strtod ''2'')))
                         (NumberExprAST (strtod ''3''))), [], tok_eof))
     \<and> (\<forall>os p. (\<forall>c\<in>set os. main_table c = Some p) \<and> length os + 3 \<le> n \<longrightarrow>
          outcome (ParseExpression strtod n (main_init strtod (''1'' @ chain_input os))) =
            Some (Some (chain_tree strtod (NumberExprAST (strtod ''1'')) os), [], tok_eof)))"
proof (rule conjI [OF _ allI [OF impI]])
  show "of_char CHR ''('' \<notin> set (toks strtod s) \<and> ParseExpression strtod k s = Some (Some e, s1)
        \<longrightarrow> no_equal_right_nesting (precs s) e"
    using ParseExpression_wellnested [of strtod k s e s1]
      wellnested_no_equal_right_nesting [of "precs s" e]
    by blast
next
  fix n :: nat
  assume n: "8 \<le> n"
  have ch: "outcome (ParseExpression strtod n (main_init strtod (''1'' @ chain_input os))) =
            Some (Some (chain_tree strtod (NumberExprAST (strtod ''1'')) os), [], tok_eof)"
    if "(\<forall>c\<in>set os. main_table c = Some p) \<and> length os + 3 \<le> n" for os p
    using that ParseExpression_chain [of os p n strtod] by blast
  have g: "outcome (ParseExpression strtod n
                     (main_init strtod (''1'' @ [o1] @ ''2'' @ [o2] @ ''3''))) =
            Some (Some (BinaryExprAST o2
                         (BinaryExprAST o1 (NumberExprAST (strtod ''1''))
                            (NumberExprAST (strtod ''2'')))
                         (NumberExprAST (strtod ''3''))), [], tok_eof)"
    if t: "main_table o1 = Some p \<and> main_table o2 = Some p" for o1 o2 p
  proof -
    from t have d: "o1 \<in> {CHR ''<'', CHR ''+'', CHR ''-'', CHR ''*''}"
        "o2 \<in> {CHR ''<'', CHR ''+'', CHR ''-'', CHR ''*''}"
      by (blast dest: main_table_dom)+
    from t have "the (main_table o1) = p" "the (main_table o2) = p" by simp_all
    with two_operators_eval [OF d, of strtod]
    have "outcome (ParseExpression strtod 8 (main_init strtod (''1'' @ [o1] @ ''2'' @ [o2] @ ''3''))) =
       Some (Some (three_operands strtod o1 o2 False), [], tok_eof)"
      by simp
    from outcome_ParseExpression_mono [OF this n] show ?thesis
      by (simp add: three_operands_def)
  qed
  have "main_table CHR ''+'' = Some 20 \<and> main_table CHR ''+'' = Some 20"
    by (simp add: main_table_def)
  from g [OF this]
  have a: "outcome (ParseExpression strtod n (main_init strtod ''1+2+3'')) =
       Some (Some (BinaryExprAST CHR ''+''
                    (BinaryExprAST CHR ''+'' (NumberExprAST (strtod ''1''))
                       (NumberExprAST (strtod ''2'')))
                    (NumberExprAST (strtod ''3''))), [], tok_eof)"
    by simp
  then have b: "map_option fst (ParseExpression strtod n (main_init strtod ''1+2+3'')) \<noteq>
         Some (Some (BinaryExprAST CHR ''+'' (NumberExprAST (strtod ''1''))
                      (BinaryExprAST CHR ''+'' (NumberExprAST (strtod ''2''))
                         (NumberExprAST (strtod ''3'')))))"
    by (auto simp: outcome_def)
  from a b g ch show "outcome (ParseExpression strtod n (main_init strtod ''1+2+3'')) =
       Some (Some (BinaryExprAST CHR ''+''
                    (BinaryExprAST CHR ''+'' (NumberExprAST (strtod ''1''))
                       (NumberExprAST (strtod ''2'')))
                    (NumberExprAST (strtod ''3''))), [], tok_eof)
     \<and> map_option fst (ParseExpression strtod n (main_init strtod ''1+2+3'')) \<noteq>
         Some (Some (BinaryExprAST CHR ''+'' (NumberExprAST (strtod ''1''))
                      (BinaryExprAST CHR ''+'' (NumberExprAST (strtod ''2''))
                         (NumberExprAST (strtod ''3'')))))
     \<and> (\<forall>o1 o2 p. main_table o1 = Some p \<and> main_table o2 = Some p \<longrightarrow>
          outcome (ParseExpression strtod n
                     (main_init strtod (''1'' @ [o1] @ ''2'' @ [o2] @ ''3''))) =
            Some (Some (BinaryExprAST o2
                         (BinaryExprAST o1 (NumberExprAST (strtod ''1''))
                            (NumberExprAST (strtod ''2'')))
                         (NumberExprAST (strtod ''3''))), [], tok_eof))
     \<and> (\<forall>os p. (\<forall>c\<in>set os. main_table c = Some p) \<and> length os + 3 \<le> n \<longrightarrow>
          outcome (ParseExpression strtod n (main_init strtod (''1'' @ chain_input os))) =
            Some (Some (chain_tree strtod (NumberExprAST (strtod ''1'')) os), [], tok_eof))"
    by blast
qed

theorem equal_precedence_groups_left_witness:
  "(8::nat) \<le> 8
   \<and> main_table CHR ''+'' = Some 20 \<and> main_table CHR ''-'' = Some 20
   \<and> outcome (ParseExpression strtod_decimal 8 (main_init strtod_decimal ''1+2-3'')) =
       Some (Some (BinaryExprAST CHR ''-''
                    (BinaryExprAST CHR ''+'' (NumberExprAST 1) (NumberExprAST 2))
                    (NumberExprAST 3)), [], tok_eof)
   \<and> length ''+-+'' + 3 \<le> (8::nat)
   \<and> outcome (ParseExpression strtod_decimal 8 (main_init strtod_decimal ''1+1-1+1'')) =
       Some (Some (BinaryExprAST CHR ''+''
                    (BinaryExprAST CHR ''-''
                       (BinaryExprAST CHR ''+'' (NumberExprAST 1) (NumberExprAST 1))
                       (NumberExprAST 1))
                    (NumberExprAST 1)), [], tok_eof)
   \<and> of_char CHR ''('' \<notin> set (toks strtod_decimal (main_init strtod_decimal ''1+2-3''))
   \<and> no_equal_right_nesting (precs (main_init strtod_decimal ''1+2-3''))
        (BinaryExprAST CHR ''-''
           (BinaryExprAST CHR ''+'' (NumberExprAST (1::rat)) (NumberExprAST 2))
           (NumberExprAST 3))"
proof -
  have m: "main_table CHR ''+'' = Some 20 \<and> main_table CHR ''-'' = Some 20"
    by (simp add: main_table_def)
  note t = equal_precedence_groups_left [where strtod = strtod_decimal, THEN conjunct2,
      rule_format, of 8]
  from t have "\<And>o1 o2 p. main_table o1 = Some p \<and> main_table o2 = Some p \<Longrightarrow>
          outcome (ParseExpression strtod_decimal 8
                     (main_init strtod_decimal (''1'' @ [o1] @ ''2'' @ [o2] @ ''3''))) =
            Some (Some (BinaryExprAST o2
                         (BinaryExprAST o1 (NumberExprAST (strtod_decimal ''1''))
                            (NumberExprAST (strtod_decimal ''2'')))
                         (NumberExprAST (strtod_decimal ''3''))), [], tok_eof)"
    by simp
  from this [OF m]
  have a: "outcome (ParseExpression strtod_decimal 8 (main_init strtod_decimal ''1+2-3'')) =
       Some (Some (BinaryExprAST CHR ''-''
                    (BinaryExprAST CHR ''+'' (NumberExprAST 1) (NumberExprAST 2))
                    (NumberExprAST 3)), [], tok_eof)"
    by (simp add: strtod_decimal_123)
  from t have "\<And>os p. (\<forall>c\<in>set os. main_table c = Some p) \<and> length os + 3 \<le> 8 \<Longrightarrow>
          outcome (ParseExpression strtod_decimal 8 (main_init strtod_decimal (''1'' @ chain_input os))) =
            Some (Some (chain_tree strtod_decimal (NumberExprAST (strtod_decimal ''1'')) os), [], tok_eof)"
    by simp
  from this [of "''+-+''" 20] m
  have b: "outcome (ParseExpression strtod_decimal 8 (main_init strtod_decimal ''1+1-1+1'')) =
       Some (Some (BinaryExprAST CHR ''+''
                    (BinaryExprAST CHR ''-''
                       (BinaryExprAST CHR ''+'' (NumberExprAST 1) (NumberExprAST 1))
                       (NumberExprAST 1))
                    (NumberExprAST 1)), [], tok_eof)"
    by (simp add: chain_input_def chain_tree_def strtod_decimal_123)
  let ?s = "main_init strtod_decimal ''1+2-3''"
  have np: "of_char CHR ''('' \<notin> set (toks strtod_decimal ?s)" by code_simp
  from a obtain s1 where "ParseExpression strtod_decimal 8 ?s =
      Some (Some (BinaryExprAST CHR ''-''
                    (BinaryExprAST CHR ''+'' (NumberExprAST 1) (NumberExprAST 2))
                    (NumberExprAST 3)), s1)"
    by (auto simp: outcome_def)
  with equal_precedence_groups_left [where strtod = strtod_decimal, THEN conjunct1, of ?s 8 _ s1] np
  have d: "no_equal_right_nesting (precs ?s)
        (BinaryExprAST CHR ''-''
           (BinaryExprAST CHR ''+'' (NumberExprAST (1::rat)) (NumberExprAST 2))
           (NumberExprAST 3))"
    by blast
  from m a b np d show ?thesis by simp
qed

text \<open>
  C3, as stated, fails: on \<open>foo(1,\<close> the comma is consumed, the argument loop asks for
  another expression, and \<open>ParsePrimary\<close> meets end of input; the one message written is
  \<open>unknown token when expecting an expression\<close>, not the argument-list message.
\<close>

theorem unterminated_argument_list_counterexample:
  "outcome (ParseExpression strtod_decimal 8 (main_init strtod_decimal ''foo(1,'')) =
     Some (None, [''Error: unknown token when expecting an expression''], tok_eof)
   \<and> outcome (ParseExpression strtod_decimal 8 (main_init strtod_decimal ''foo(1,'')) \<noteq>
     Some (None, [''Error: '' @ msg_arg_list], tok_eof)"
  by code_simp

text \<open>
  C3, amended. On every fuel that suffices: \<open>foo(1,\<close> fails with the single message
  \<open>unknown token when expecting an expression\<close>; the argument-list message
  \<open>Expected ')' or ',' in argument list\<close> is what \<open>foo(1\<close> and \<open>foo(1 2\<close> fail with; and
  \<open>(1+2\<close> fails with \<open>expected ')'\<close>. In each case the parser returns the null pointer,
  no tree, after writing exactly one line.
\<close>

theorem malformed_input_fails_with_one_message:
  fixes strtod :: "string \<Rightarrow> 'v::{zero,equal}"
  shows "\<forall>n\<ge>8.
     outcome (ParseExpression strtod n (main_init strtod ''foo(1,'')) =
       Some (None, [''Error: '' @ msg_unknown_token], tok_eof)
     \<and> outcome (ParseExpression strtod n (main_init strtod ''foo(1'')) =
       Some (None, [''Error: '' @ msg_arg_list], tok_eof)
     \<and> outcome (ParseExpression strtod n (main_init strtod ''foo(1 2'')) =
       Some (None, [''Error: '' @ msg_arg_list], tok_number)
     \<and> outcome (ParseExpression strtod n (main_init strtod ''(1+2'')) =
       Some (None, [''Error: '' @ msg_expected_rparen], tok_eof)"
proof (intro allI impI conjI)
  fix n :: nat
  assume n: "8 \<le> n"
  have "outcome (ParseExpression strtod 8 (main_init strtod ''foo(1,'')) =
       Some (None, [''Error: '' @ msg_unknown_token], tok_eof)"
    by code_simp
  from outcome_ParseExpression_mono [OF this n]
  show "outcome (ParseExpression strtod n (main_init strtod ''foo(1,'')) =
       Some (None, [''Error: '' @ msg_unknown_token], tok_eof)" .
  have "outcome (ParseExpression strtod 8 (main_init strtod ''foo(1'')) =
       Some (None, [''Error: '' @ msg_arg_list], tok_eof)"
    by code_simp
  from outcome_ParseExpression_mono [OF this n]
  show "outcome (ParseExpression strtod n (main_init strtod ''foo(1'')) =
       Some (None, [''Error: '' @ msg_arg_list], tok_eof)" .
  have "outcome (ParseExpression strtod 8 (main_init strtod ''foo(1 2'')) =
       Some (None, [''Error: '' @ msg_arg_list], tok_number)"
    by code_simp
  from outcome_ParseExpression_mono [OF this n]
  show "outcome (ParseExpression strtod n (main_init strtod ''foo(1 2'')) =
       Some (None, [''Error: '' @ msg_arg_list], tok_number)" .
  have "outcome (ParseExpression strtod 8 (main_init strtod ''(1+2'')) =
       Some (None, [''Error: '' @ msg_expected_rparen], tok_eof)"
    by code_simp
  from outcome_ParseExpression_mono [OF this n]
  show "outcome (ParseExpression strtod n (main_init strtod ''(1+2'')) =
       Some (None, [''Error: '' @ msg_expected_rparen], tok_eof)" .
qed

theorem malformed_input_fails_with_one_message_witness:
  "(8::nat) \<le> 12
   \<and> outcome (ParseExpression strtod_decimal 12 (main_init strtod_decimal ''foo(1'')) =
       Some (None, [''Error: '' @ msg_arg_list], tok_eof)
   \<and> outcome (ParseExpression strtod_decimal 12 (main_init strtod_decimal ''(1+2'')) =
       Some (None, [''Error: '' @ msg_expected_rparen], tok_eof)"
  using malformed_input_fails_with_one_message [of strtod_decimal, rule_format, of 12]
  by simp

text \<open>
  C4. Where \<open>ParsePrimary\<close>, \<open>ParseParenExpr\<close>, \<open>ParseIdentifierExpr\<close> (in its argument
  loop \<open>ParseArgs\<close>) and \<open>ParsePrototype\<close> detect a malformed construct themselves, the
  state they return is exactly the state in which the failing test was made, with one
  line added to standard error: \<open>CurTok\<close> and the lexer are untouched, so \<open>CurTok\<close> still
  holds the token that failed the test. Moreover, whenever one of the four returns the
  null pointer, whether it detected the error or a sub-parse did, exactly one line
  \<open>Error: msg\<close> has been written and \<open>CurTok\<close> holds a token that the test reported by
  \<open>msg\<close> rejects.
\<close>

theorem failure_leaves_offending_token:
  "(CurTok s \<noteq> tok_identifier \<and> CurTok s \<noteq> tok_number \<and> CurTok s \<noteq> of_char CHR ''('' \<longrightarrow>
      ParsePrimary strtod (Suc n) s =
        Some (None, s\<lparr>stderr := stderr s @ [''Error: '' @ msg_unknown_token]\<rparr>))
   \<and> (ParseExpression strtod n (snd (getNextToken strtod s)) = Some (Some V, s2)
        \<and> CurTok s2 \<noteq> of_char CHR '')'' \<longrightarrow>
      ParseParenExpr strtod (Suc n) s =
        Some (None, s2\<lparr>stderr := stderr s2 @ [''Error: '' @ msg_expected_rparen]\<rparr>))
   \<and> (ParseExpression strtod n s = Some (Some V, s2)
        \<and> CurTok s2 \<noteq> of_char CHR '')'' \<and> CurTok s2 \<noteq> of_char CHR '','' \<longrightarrow>
      ParseArgs strtod (Suc n) Args s =
        Some (None, s2\<lparr>stderr := stderr s2 @ [''Error: '' @ msg_arg_list]\<rparr>))
   \<and> (CurTok (snd (getNextToken strtod s)) = of_char CHR ''(''
        \<and> CurTok (snd (getNextToken strtod (snd (getNextToken strtod s)))) \<noteq> of_char CHR '')''
        \<and> ParseArgs strtod n [] (snd (getNextToken strtod (snd (getNextToken strtod s))))
            = Some (None, s3) \<longrightarrow>
      ParseIdentifierExpr strtod (Suc n) s = Some (None, s3))
   \<and> (CurTok s \<noteq> tok_identifier \<longrightarrow>
      ParsePrototype strtod s = (None, s\<lparr>stderr := stderr s @ [''Error: '' @ msg_proto_name]\<rparr>))
   \<and> (CurTok s = tok_identifier \<and> CurTok (snd (getNextToken strtod s)) \<noteq> of_char CHR ''('' \<longrightarrow>
      ParsePrototype strtod s =
        (None, (snd (getNextToken strtod s))
           \<lparr>stderr := stderr (snd (getNextToken strtod s)) @ [''Error: '' @ msg_proto_lparen]\<rparr>))
   \<and> (CurTok s = tok_identifier \<and> CurTok (snd (getNextToken strtod s)) = of_char CHR ''(''
        \<and> CurTok (snd (proto_args strtod [] (snd (getNextToken strtod s)))) \<noteq> of_char CHR '')'' \<longrightarrow>
      ParsePrototype strtod s =
        (None, (snd (proto_args strtod [] (snd (getNextToken strtod s))))
           \<lparr>stderr := stderr (snd (proto_args strtod [] (snd (getNextToken strtod s))))
                        @ [''Error: '' @ msg_proto_rparen]\<rparr>))
   \<and> (ParsePrimary strtod n s = Some (None, s1) \<longrightarrow> failure_report s s1)
   \<and> (ParseParenExpr strtod n s = Some (None, s1) \<longrightarrow> failure_report s s1)
   \<and> (ParseIdentifierExpr strtod n s = Some (None, s1) \<longrightarrow> failure_report s s1)
   \<and> (ParsePrototype strtod s = (None, s1) \<longrightarrow> failure_report s s1)"
proof (intro conjI impI)
  assume "CurTok s \<noteq> tok_identifier \<and> CurTok s \<noteq> tok_number \<and> CurTok s \<noteq> of_char CHR ''(''"
  then show "ParsePrimary strtod (Suc n) s =
        Some (None, s\<lparr>stderr := stderr s @ [''Error: '' @ msg_unknown_token]\<rparr>)"
    by (simp add: LogError_def)
next
  assume "ParseExpression strtod n (snd (getNextToken strtod s)) = Some (Some V, s2)
        \<and> CurTok s2 \<noteq> of_char CHR '')''"
  then show "ParseParenExpr strtod (Suc n) s =
        Some (None, s2\<lparr>stderr := stderr s2 @ [''Error: '' @ msg_expected_rparen]\<rparr>)"
    by (simp add: LogError_def split_def)
next
  assume "ParseExpression strtod n s = Some (Some V, s2)
        \<and> CurTok s2 \<noteq> of_char CHR '')'' \<and> CurTok s2 \<noteq> of_char CHR '',''"
  then show "ParseArgs strtod (Suc n) Args s =
        Some (None, s2\<lparr>stderr := stderr s2 @ [''Error: '' @ msg_arg_list]\<rparr>)"
    by (simp add: LogError_def split_def)
next
  assume "CurTok (snd (getNextToken strtod s)) = of_char CHR ''(''
        \<and> CurTok (snd (getNextToken strtod (snd (getNextToken strtod s)))) \<noteq> of_char CHR '')''
        \<and> ParseArgs strtod n [] (snd (getNextToken strtod (snd (getNextToken strtod s))))
            = Some (None, s3)"
  then show "ParseIdentifierExpr strtod (Suc n) s = Some (None, s3)"
    by (simp add: split_def Let_def)
next
  assume "CurTok s \<noteq> tok_identifier"
  then show "ParsePrototype strtod s =
      (None, s\<lparr>stderr := stderr s @ [''Error: '' @ msg_proto_name]\<rparr>)"
    by (simp add: ParsePrototype_def LogErrorP_def LogError_def)
next
  assume "CurTok s = tok_identifier \<and> CurTok (snd (getNextToken strtod s)) \<noteq> of_char CHR ''(''"
  then show "ParsePrototype strtod s =
        (None, (snd (getNextToken strtod s))
           \<lparr>stderr := stderr (snd (getNextToken strtod s)) @ [''Error: '' @ msg_proto_lparen]\<rparr>)"
    by (simp add: ParsePrototype_def LogErrorP_def LogError_def split_def Let_def)
next
  assume "CurTok s = tok_identifier \<and> CurTok (snd (getNextToken strtod s)) = of_char CHR ''(''
        \<and> CurTok (snd (proto_args strtod [] (snd (getNextToken strtod s)))) \<noteq> of_char CHR '')''"
  then show "ParsePrototype strtod s =
        (None, (snd (proto_args strtod [] (snd (getNextToken strtod s))))
           \<lparr>stderr := stderr (snd (proto_args strtod [] (snd (getNextToken strtod s))))
                        @ [''Error: '' @ msg_proto_rparen]\<rparr>)"
    by (simp add: ParsePrototype_def LogErrorP_def LogError_def split_def Let_def)
next
  assume "ParsePrimary strtod n s = Some (None, s1)"
  then have "reported s (None :: 'a ExprAST option) s1" using Parse_reported_all [of strtod n] by simp
  then show "failure_report s s1" by (rule reported_None)
next
  assume "ParseParenExpr strtod n s = Some (None, s1)"
  then have "reported s (None :: 'a ExprAST option) s1" using Parse_reported_all [of strtod n] by simp
  then show "failure_report s s1" by (rule reported_None)
next
  assume "ParseIdentifierExpr strtod n s = Some (None, s1)"
  then have "reported s (None :: 'a ExprAST option) s1" using Parse_reported_all [of strtod n] by simp
  then show "failure_report s s1" by (rule reported_None)
next
  assume "ParsePrototype strtod s = (None, s1)"
  then have "reported s (None :: PrototypeAST option) s1" by (rule ParsePrototype_reported)
  then show "failure_report s s1" by (rule reported_None)
qed


theorem failure_leaves_offending_token_witness:
  "CurTok (main_init strtod_decimal '')'') = of_char CHR '')''
   \<and> outcome (ParsePrimary strtod_decimal (Suc 0) (main_init strtod_decimal '')'')) =
       Some (None, [''Error: '' @ msg_unknown_token], of_char CHR '')'')
   \<and> outcome (ParsePrototype_fuel strtod_decimal (main_init strtod_decimal ''foo(a b,'')) =
       Some (None, [''Error: '' @ msg_proto_rparen], of_char CHR '','')
   \<and> outcome (ParseParenExpr strtod_decimal 9 (main_init strtod_decimal ''(1+2;'')) =
       Some (None, [''Error: '' @ msg_expected_rparen], of_char CHR '';'')
   \<and> failure_report (main_init strtod_decimal ''(1+2;'')
        (snd (the (ParseParenExpr strtod_decimal 9 (main_init strtod_decimal ''(1+2;''))))"
proof -
  let ?s = "main_init strtod_decimal '')''"
  note t = failure_leaves_offending_token [where strtod = strtod_decimal]
  have c: "CurTok ?s = of_char CHR '')''" by code_simp
  have e: "stderr ?s = []" by (simp add: main_init_def start_def)
  from t [of ?s 0] c
  have "ParsePrimary strtod_decimal (Suc 0) ?s =
        Some (None, ?s\<lparr>stderr := stderr ?s @ [''Error: '' @ msg_unknown_token]\<rparr>)"
    by simp
  then have a: "outcome (ParsePrimary strtod_decimal (Suc 0) ?s) =
       Some (None, [''Error: '' @ msg_unknown_token], of_char CHR '')'')"
    using c e by (simp add: outcome_def)
  let ?p = "main_init strtod_decimal ''foo(a b,''"
  have b: "outcome (ParsePrototype_fuel strtod_decimal ?p) =
       Some (None, [''Error: '' @ msg_proto_rparen], of_char CHR '','')"
    by code_simp
  let ?q = "main_init strtod_decimal ''(1+2;''"
  have q: "outcome (ParseParenExpr strtod_decimal 9 ?q) =
       Some (None, [''Error: '' @ msg_expected_rparen], of_char CHR '';'')"
    by code_simp
  then obtain s1 where s1: "ParseParenExpr strtod_decimal 9 ?q = Some (None, s1)"
    by (auto simp: outcome_def)
  from t [of ?q 9 _ _ _ _ s1] s1 have "failure_report ?q s1" by blast
  with s1 have d: "failure_report ?q (snd (the (ParseParenExpr strtod_decimal 9 ?q)))" by simp
  from c a b q d show ?thesis by blast
qed

text \<open>
  C5. The precedence lookup returns 10 for \<open><\<close>, 20 for \<open>+\<close> and \<open>-\<close>, 40 for \<open>*\<close> and -1 for
  every other current token, whenever the table is the one \<open>main\<close> installed, possibly
  grown by the zero entries that earlier lookups inserted; in particular it returns -1
  for the five negative token codes. For any table, a token that is not ASCII, is
  absent from the table, or is mapped to a value \<open>\<le> 0\<close> gives -1. A lookup leaves the
  current token and the lexer alone and keeps the table in that form, and a second
  lookup returns the same value and changes nothing any more. A token with precedence
  -1 is not consumed as a binary operator: for any minimum precedence of at least 0
  (\<open>ParseExpression\<close> passes 0 and the loop passes on \<open>TokPrec + 1\<close>), \<open>ParseBinOpRHS\<close>
  returns its left-hand side at once.
\<close>

theorem GetTokPrecedence_main_table:
  "(zero_extends main_table (BinopPrecedence s) \<longrightarrow>
      fst (GetTokPrecedence s) =
        (if CurTok s = of_char CHR ''<'' then 10
         else if CurTok s = of_char CHR ''+'' \<or> CurTok s = of_char CHR ''-'' then 20
         else if CurTok s = of_char CHR ''*'' then 40 else - 1)
      \<and> (CurTok s \<in> {tok_eof, tok_def, tok_extern, tok_identifier, tok_number}
           \<longrightarrow> fst (GetTokPrecedence s) = - 1)
      \<and> zero_extends main_table (BinopPrecedence (snd (GetTokPrecedence s))))
   \<and> (\<not> isascii (CurTok s) \<or> BinopPrecedence s (char_of (CurTok s)) = None
        \<or> (\<exists>p\<le>0. BinopPrecedence s (char_of (CurTok s)) = Some p)
      \<longrightarrow> fst (GetTokPrecedence s) = - 1)
   \<and> CurTok (snd (GetTokPrecedence s)) = CurTok s
   \<and> lexer (snd (GetTokPrecedence s)) = lexer s
   \<and> fst (GetTokPrecedence (snd (GetTokPrecedence s))) = fst (GetTokPrecedence s)
   \<and> snd (GetTokPrecedence (snd (GetTokPrecedence s))) = snd (GetTokPrecedence s)
   \<and> (0 \<le> ExprPrec \<and> fst (GetTokPrecedence s) = - 1 \<longrightarrow>
        ParseBinOpRHS strtod (Suc k) ExprPrec LHS s = Some (Some LHS, snd (GetTokPrecedence s)))"
proof -
  have a: "fst (GetTokPrecedence s) =
        (if CurTok s = of_char CHR ''<'' then 10
         else if CurTok s = of_char CHR ''+'' \<or> CurTok s = of_char CHR ''-'' then 20
         else if CurTok s = of_char CHR ''*'' then 40 else - 1)
      \<and> (CurTok s \<in> {tok_eof, tok_def, tok_extern, tok_identifier, tok_number}
           \<longrightarrow> fst (GetTokPrecedence s) = - 1)
      \<and> zero_extends main_table (BinopPrecedence (snd (GetTokPrecedence s)))"
    if z: "zero_extends main_table (BinopPrecedence s)"
  proof -
    note p = main_table_prec [OF z]
    have "CurTok s \<in> {tok_eof, tok_def, tok_extern, tok_identifier, tok_number}
           \<longrightarrow> fst (GetTokPrecedence s) = - 1"
      unfolding p by auto
    with p zero_extends_GetTokPrecedence [OF z] show ?thesis by blast
  qed
  have b: "fst (GetTokPrecedence s) = - 1"
    if "\<not> isascii (CurTok s) \<or> BinopPrecedence s (char_of (CurTok s)) = None
        \<or> (\<exists>p\<le>0. BinopPrecedence s (char_of (CurTok s)) = Some p)"
    using that by (auto simp: GetTokPrecedence_fst)
  have c: "ParseBinOpRHS strtod (Suc k) ExprPrec LHS s = Some (Some LHS, snd (GetTokPrecedence s))"
    if "0 \<le> ExprPrec \<and> fst (GetTokPrecedence s) = - 1"
    using that by (simp add: split_def)
  show ?thesis
    using a b c GetTokPrecedence_CurTok [of s] GetTokPrecedence_lexer [of s]
      GetTokPrecedence_again [of s] GetTokPrecedence_stable [of s]
    by blast
qed

theorem GetTokPrecedence_main_table_witness:
  "zero_extends main_table (BinopPrecedence (main_init strtod_decimal ''*''))
   \<and> CurTok (main_init strtod_decimal ''*'') = of_char CHR ''*''
   \<and> fst (GetTokPrecedence (main_init strtod_decimal ''*'')) = 40
   \<and> BinopPrecedence (main_init strtod_decimal '','') (char_of (CurTok (main_init strtod_decimal '',''))) = None
   \<and> fst (GetTokPrecedence (main_init strtod_decimal '','')) = - 1
   \<and> ParseBinOpRHS strtod_decimal (Suc 0) 0 (NumberExprAST 1) (main_init strtod_decimal '','')
       = Some (Some (NumberExprAST 1), snd (GetTokPrecedence (main_init strtod_decimal '','')))"
proof -
  have t: "BinopPrecedence (main_init strtod_decimal inp) = main_table" for inp
    by (simp add: main_init_def)
  have c1: "CurTok (main_init strtod_decimal ''*'') = 42" by code_simp
  have c2: "CurTok (main_init strtod_decimal '','') = 44" by code_simp
  have n: "BinopPrecedence (main_init strtod_decimal '','') (char_of (CurTok (main_init strtod_decimal '',''))) = None"
    unfolding t c2 by code_simp
  note g = GetTokPrecedence_main_table [of "main_init strtod_decimal '',''" 0 strtod_decimal 0
      "NumberExprAST 1"]
  from g n have p: "fst (GetTokPrecedence (main_init strtod_decimal '','')) = - 1" by blast
  with g have b: "ParseBinOpRHS strtod_decimal (Suc 0) 0 (NumberExprAST 1)
      (main_init strtod_decimal '','')
       = Some (Some (NumberExprAST 1), snd (GetTokPrecedence (main_init strtod_decimal '','')))"
    by (simp del: ParseBinOpRHS.simps)
  have "fst (GetTokPrecedence (main_init strtod_decimal ''*'')) = 40"
    using GetTokPrecedence_main_table [of "main_init strtod_decimal ''*''"]
    by (simp add: t c1 del: ParseBinOpRHS.simps)
  with n p b show ?thesis by (simp add: t c1)
qed

text \<open>
  C6. If the input starts with a non-empty run of digits and dots that is followed by
  the end of input or by a character that is neither, then the first call of \<open>gettok\<close>
  returns \<open>tok_number\<close>, leaves \<open>NumVal = strtod run\<close> for exactly that run, and stops
  with the character after the run in \<open>LastChar\<close>; the same holds in any lexer state
  whose \<open>LastChar\<close> is the first character of such a run. When the run is the whole input,
  parsing it as an expression gives \<open>NumberExprAST (strtod run)\<close> without any message;
  this covers \<open>42\<close>, \<open>3.14\<close> and the malformed \<open>..\<close>, which is a number token like any
  other. Read as exact decimals (\<open>strtod_decimal\<close>), the three values are 42, 3.14 and 0.
\<close>

theorem number_run_is_one_number_token:
  fixes strtod :: "string \<Rightarrow> 'v::zero"
  shows "(run \<noteq> [] \<and> (\<forall>c\<in>set run. is_number_char c) \<and> (rest = [] \<or> \<not> is_number_char (hd rest))
      \<longrightarrow> gettok strtod (lexer (start (run @ rest) :: 'v state)) =
            (tok_number,
             \<lparr>LastChar = (case rest of [] \<Rightarrow> EOF | r # _ \<Rightarrow> of_char r), stdin = tl rest,
              IdentifierStr = [], NumVal = strtod run\<rparr>))
   \<and> (LastChar l = of_char c \<and> is_number_char c \<and> (\<forall>c\<in>set cs. is_number_char c)
        \<and> (rest = [] \<or> \<not> is_number_char (hd rest)) \<and> stdin l = cs @ rest
      \<longrightarrow> gettok strtod l = (tok_number, (lexer_at l rest)\<lparr>NumVal := strtod (c # cs)\<rparr>))
   \<and> (run \<noteq> [] \<and> (\<forall>c\<in>set run. is_number_char c)
      \<longrightarrow> (\<forall>n\<ge>3. outcome (ParseExpression strtod n (main_init strtod run)) =
                    Some (Some (NumberExprAST (strtod run)), [], tok_eof)))
   \<and> (\<forall>n\<ge>3. outcome (ParseExpression strtod n (main_init strtod ''42'')) =
                Some (Some (NumberExprAST (strtod ''42'')), [], tok_eof)
            \<and> outcome (ParseExpression strtod n (main_init strtod ''3.14'')) =
                Some (Some (NumberExprAST (strtod ''3.14'')), [], tok_eof)
            \<and> outcome (ParseExpression strtod n (main_init strtod ''..'')) =
                Some (Some (NumberExprAST (strtod ''..'')), [], tok_eof))
   \<and> strtod_decimal ''42'' = 42 \<and> strtod_decimal ''3.14'' = 314 / 100
   \<and> strtod_decimal ''..'' = 0"
proof -
  have a: "gettok strtod (lexer (start (run @ rest) :: 'v state)) =
            (tok_number,
             \<lparr>LastChar = (case rest of [] \<Rightarrow> EOF | r # _ \<Rightarrow> of_char r), stdin = tl rest,
              IdentifierStr = [], NumVal = strtod run\<rparr>)"
    if h: "run \<noteq> [] \<and> (\<forall>c\<in>set run. is_number_char c) \<and> (rest = [] \<or> \<not> is_number_char (hd rest))"
  proof -
    from h obtain c cs where run: "run = c # cs" by (cases run) auto
    have "gettok strtod (lexer (start (run @ rest) :: 'v state)) =
       (tok_number, (lexer_at (lexer (start (run @ rest) :: 'v state)) rest)\<lparr>NumVal := strtod (c # cs)\<rparr>)"
      using h by (intro gettok_start_number_run) (simp_all add: start_def run)
    then show ?thesis by (simp add: start_def lexer_at_def run)
  qed
  have b: "outcome (ParseExpression strtod n (main_init strtod run)) =
                    Some (Some (NumberExprAST (strtod run)), [], tok_eof)"
    if h: "run \<noteq> [] \<and> (\<forall>c\<in>set run. is_number_char c)" and n: "3 \<le> n" for run n
  proof -
    from n obtain k where k: "n = Suc (Suc (Suc k))"
      by (metis add_2_eq_Suc' le_Suc_ex numeral_3_eq_3 add_Suc)
    from h have m: "main_init strtod run =
       \<lparr>lexer = \<lparr>LastChar = EOF, stdin = [], IdentifierStr = [], NumVal = strtod run\<rparr>,
        CurTok = tok_number, BinopPrecedence = main_table, stderr = []\<rparr>"
      by (intro main_init_number_run) simp_all
    show ?thesis unfolding k m
      by (subst ParseExpression_number) (simp_all add: outcome_def)
  qed
  have c: "\<forall>c\<in>set ''42''. is_number_char c" "\<forall>c\<in>set ''3.14''. is_number_char c"
    "\<forall>c\<in>set ''..''. is_number_char c"
    by (simp_all add: is_number_char_def isdigit_def)
  from b c have d: "\<forall>n\<ge>3. outcome (ParseExpression strtod n (main_init strtod ''42'')) =
                Some (Some (NumberExprAST (strtod ''42'')), [], tok_eof)
            \<and> outcome (ParseExpression strtod n (main_init strtod ''3.14'')) =
                Some (Some (NumberExprAST (strtod ''3.14'')), [], tok_eof)
            \<and> outcome (ParseExpression strtod n (main_init strtod ''..'')) =
                Some (Some (NumberExprAST (strtod ''..'')), [], tok_eof)"
    by simp
  have g: "gettok strtod l = (tok_number, (lexer_at l rest)\<lparr>NumVal := strtod (c # cs)\<rparr>)"
    if "LastChar l = of_char c \<and> is_number_char c \<and> (\<forall>c\<in>set cs. is_number_char c)
        \<and> (rest = [] \<or> \<not> is_number_char (hd rest)) \<and> stdin l = cs @ rest"
    using that by (intro gettok_number_run) blast+
  from a g b d strtod_decimal_examples show ?thesis by blast
qed

theorem number_run_is_one_number_token_witness:
  "''1.5'' \<noteq> [] \<and> is_number_char CHR ''1'' \<and> is_number_char CHR ''.'' \<and> is_number_char CHR ''5''
   \<and> \<not> is_number_char (hd ''+x'')
   \<and> gettok strtod_decimal (lexer (start ''1.5+x'' :: rat state)) =
        (tok_number, \<lparr>LastChar = of_char CHR ''+'', stdin = ''x'', IdentifierStr = [],
                      NumVal = strtod_decimal ''1.5''\<rparr>)
   \<and> (3::nat) \<le> 3
   \<and> outcome (ParseExpression strtod_decimal 3 (main_init strtod_decimal ''3.14'')) =
        Some (Some (NumberExprAST (314 / 100)), [], tok_eof)"
proof -
  have c: "\<forall>c\<in>set ''1.5''. is_number_char c" "\<not> is_number_char (hd ''+x'')"
    by (simp_all add: is_number_char_def isdigit_def)
  from number_run_is_one_number_token [where run = "''1.5''" and rest = "''+x''"
      and strtod = strtod_decimal] c
  have a: "gettok strtod_decimal (lexer (start ''1.5+x'' :: rat state)) =
        (tok_number, \<lparr>LastChar = of_char CHR ''+'', stdin = ''x'', IdentifierStr = [],
                      NumVal = strtod_decimal ''1.5''\<rparr>)"
    by simp
  from number_run_is_one_number_token [where run = "''1.5''" and rest = "''+x''"
      and strtod = strtod_decimal]
  have "outcome (ParseExpression strtod_decimal 3 (main_init strtod_decimal ''3.14'')) =
        Some (Some (NumberExprAST (314 / 100)), [], tok_eof)"
    by simp
  with a c show ?thesis by simp
qed

text \<open>
  C7. When the lexer stands on a \<open>#\<close>, it discards the characters up to the next newline
  or carriage return, which it does not consume, and the call continues as a call of
  \<open>gettok\<close> from there; when the input ends first, the call returns \<open>tok_eof\<close>. The
  inputs \<open>1 # comment\<close>, newline, \<open>+2\<close> and \<open>1\<close>, newline, \<open>+2\<close> give the same tokens, and
  parsed as expressions the same tree \<open>+(1, 2)\<close>, with no message and all input consumed.
\<close>

theorem comment_is_transparent:
  fixes strtod :: "string \<Rightarrow> 'v::{zero,equal}"
  shows "(LastChar l = of_char CHR ''#'' \<and> (\<forall>c\<in>set cs. \<not> is_line_end c)
        \<and> (rest = [] \<or> is_line_end (hd rest)) \<and> stdin l = cs @ rest
      \<longrightarrow> gettok strtod l =
            (if rest = [] then (tok_eof, lexer_at l []) else gettok strtod (lexer_at l rest)))
   \<and> tokenize strtod (lexer (start (''1 # comment'' @ [CHR 0x0A] @ ''+2'') :: 'v state)) =
       [NumberLiteral (strtod ''1''), Symbol (of_char CHR ''+''), NumberLiteral (strtod ''2'')]
   \<and> tokenize strtod (lexer (start (''1'' @ [CHR 0x0A] @ ''+2'') :: 'v state)) =
       [NumberLiteral (strtod ''1''), Symbol (of_char CHR ''+''), NumberLiteral (strtod ''2'')]
   \<and> (\<forall>n\<ge>8.
        outcome (ParseExpression strtod n
                   (main_init strtod (''1 # comment'' @ [CHR 0x0A] @ ''+2''))) =
          Some (Some (BinaryExprAST CHR ''+'' (NumberExprAST (strtod ''1''))
                       (NumberExprAST (strtod ''2''))), [], tok_eof)
        \<and> outcome (ParseExpression strtod n (main_init strtod (''1'' @ [CHR 0x0A] @ ''+2''))) =
          Some (Some (BinaryExprAST CHR ''+'' (NumberExprAST (strtod ''1''))
                       (NumberExprAST (strtod ''2''))), [], tok_eof))"
proof -
  have a: "gettok strtod l =
            (if rest = [] then (tok_eof, lexer_at l []) else gettok strtod (lexer_at l rest))"
    if "LastChar l = of_char CHR ''#'' \<and> (\<forall>c\<in>set cs. \<not> is_line_end c)
        \<and> (rest = [] \<or> is_line_end (hd rest)) \<and> stdin l = cs @ rest"
    using that by (intro gettok_comment) blast+
  have b: "tokenize strtod (lexer (start (''1 # comment'' @ [CHR 0x0A] @ ''+2'') :: 'v state)) =
       [NumberLiteral (strtod ''1''), Symbol (of_char CHR ''+''), NumberLiteral (strtod ''2'')]"
    by code_simp
  have c: "tokenize strtod (lexer (start (''1'' @ [CHR 0x0A] @ ''+2'') :: 'v state)) =
       [NumberLiteral (strtod ''1''), Symbol (of_char CHR ''+''), NumberLiteral (strtod ''2'')]"
    by code_simp
  have d8: "outcome (ParseExpression strtod 8
                   (main_init strtod (''1 # comment'' @ [CHR 0x0A] @ ''+2''))) =
          Some (Some (BinaryExprAST CHR ''+'' (NumberExprAST (strtod ''1''))
                       (NumberExprAST (strtod ''2''))), [], tok_eof)"
    by code_simp
  have e8: "outcome (ParseExpression strtod 8 (main_init strtod (''1'' @ [CHR 0x0A] @ ''+2''))) =
          Some (Some (BinaryExprAST CHR ''+'' (NumberExprAST (strtod ''1''))
                       (NumberExprAST (strtod ''2''))), [], tok_eof)"
    by code_simp
  have d: "\<forall>n\<ge>8.
        outcome (ParseExpression strtod n
                   (main_init strtod (''1 # comment'' @ [CHR 0x0A] @ ''+2''))) =
          Some (Some (BinaryExprAST CHR ''+'' (NumberExprAST (strtod ''1''))
                       (NumberExprAST (strtod ''2''))), [], tok_eof)
        \<and> outcome (ParseExpression strtod n (main_init strtod (''1'' @ [CHR 0x0A] @ ''+2''))) =
          Some (Some (BinaryExprAST CHR ''+'' (NumberExprAST (strtod ''1''))
                       (NumberExprAST (strtod ''2''))), [], tok_eof)"
    using outcome_ParseExpression_mono [OF d8] outcome_ParseExpression_mono [OF e8] by blast
  from a b c d show ?thesis by blast
qed

theorem comment_is_transparent_witness:
  "LastChar (lexer_at (lexer (start '''' :: rat state)) ''# c'') = of_char CHR ''#''
   \<and> \<not> is_line_end CHR '' '' \<and> \<not> is_line_end CHR ''c'' \<and> stdin (lexer_at (lexer (start '''' :: rat state)) ''# c'') = '' c'' @ []
   \<and> gettok strtod_decimal (lexer_at (lexer (start '''' :: rat state)) ''# c'') =
       (tok_eof, lexer_at (lexer_at (lexer (start '''' :: rat state)) ''# c'') [])
   \<and> (8::nat) \<le> 8
   \<and> outcome (ParseExpression strtod_decimal 8
                (main_init strtod_decimal (''1 # comment'' @ [CHR 0x0A] @ ''+2''))) =
        Some (Some (BinaryExprAST CHR ''+'' (NumberExprAST 1) (NumberExprAST 2)), [], tok_eof)"
proof -
  let ?l = "lexer_at (lexer (start '''' :: rat state)) ''# c''"
  have h: "LastChar ?l = of_char CHR ''#''" "\<forall>c\<in>set '' c''. \<not> is_line_end c"
    "stdin ?l = '' c'' @ []"
    by (simp_all add: is_line_end_def)
  from comment_is_transparent [of ?l "'' c''" "[]" strtod_decimal] h
  have a: "gettok strtod_decimal ?l = (tok_eof, lexer_at ?l [])"
    by simp
  from comment_is_transparent [of ?l "'' c''" "[]" strtod_decimal]
  have "outcome (ParseExpression strtod_decimal 8
                (main_init strtod_decimal (''1 # comment'' @ [CHR 0x0A] @ ''+2''))) =
        Some (Some (BinaryExprAST CHR ''+'' (NumberExprAST 1) (NumberExprAST 2)), [], tok_eof)"
    by (simp add: strtod_decimal_123)
  with a h show ?thesis by simp
qed

text \<open>
  C8. Once \<open>getchar\<close> has returned \<open>EOF\<close>, the lexer holds it in \<open>LastChar\<close>; from then
  on every call of \<open>gettok\<close> returns \<open>tok_eof\<close> and leaves the lexer state exactly as it
  was, for any number of calls. A call that returns \<open>tok_eof\<close> leaves the lexer in such a
  state, and \<open>getNextToken\<close> then changes nothing either once \<open>CurTok\<close> is \<open>tok_eof\<close>.
\<close>

theorem gettok_end_of_input_idempotent:
  "(fst (getchar l) = EOF \<longrightarrow> LastChar (next_char l) = EOF)
   \<and> (LastChar l = EOF \<longrightarrow>
        gettok strtod l = (tok_eof, l)
        \<and> gettok_times strtod n l = (replicate n tok_eof, l))
   \<and> (fst (gettok strtod l) = tok_eof \<longrightarrow>
        gettok strtod (snd (gettok strtod l)) = (tok_eof, snd (gettok strtod l)))
   \<and> (LastChar (lexer s) = EOF \<and> CurTok s = tok_eof \<longrightarrow> getNextToken strtod s = (tok_eof, s))"
proof -
  have a: "fst (getchar l) = EOF \<longrightarrow> LastChar (next_char l) = EOF"
    by (simp add: next_char_def split: prod.splits)
  have b: "gettok strtod (snd (gettok strtod l)) = (tok_eof, snd (gettok strtod l))"
    if "fst (gettok strtod l) = tok_eof"
    using that gettok_props [of strtod l] by (intro gettok_at_EOF) simp
  have c: "getNextToken strtod s = (tok_eof, s)" if "LastChar (lexer s) = EOF \<and> CurTok s = tok_eof"
    using that gettok_at_EOF [of "lexer s" strtod] by (simp add: getNextToken_def)
  show ?thesis using a b c gettok_at_EOF [of l strtod] gettok_times_at_EOF [of l strtod n]
    by blast
qed

theorem gettok_end_of_input_idempotent_witness:
  "LastChar (snd (gettok strtod_decimal (lexer (start ''x'')))) = EOF
   \<and> fst (gettok strtod_decimal (lexer (start ''x''))) = tok_identifier
   \<and> gettok_times strtod_decimal 3 (snd (gettok strtod_decimal (lexer (start ''x''))))
       = ([tok_eof, tok_eof, tok_eof], snd (gettok strtod_decimal (lexer (start ''x''))))"
proof -
  have e: "LastChar (snd (gettok strtod_decimal (lexer (start ''x'')))) = EOF" by code_simp
  have t: "fst (gettok strtod_decimal (lexer (start ''x''))) = tok_identifier" by code_simp
  show ?thesis
    using gettok_end_of_input_idempotent
      [of "snd (gettok strtod_decimal (lexer (start ''x'')))" strtod_decimal 3] e t
    by (simp add: numeral_3_eq_3)
qed

text \<open>
  C9. \<open>ParseBinOpRHS\<close> and \<open>ParseExpression\<close> return on every state, for every minimum
  precedence and left-hand side: with \<open>tokm s\<close> the number of characters and buffered
  tokens still unconsumed, any fuel of at least \<open>3 * tokm s + 2\<close> gives a result, and
  the same one. The loop returns its left-hand side unchanged when the current
  token's precedence is below the minimum; a run never gives input back; and a run
  that passes that test and succeeds has consumed input.
\<close>

theorem ParseBinOpRHS_total:
  "(\<exists>r. \<forall>n\<ge>3 * tokm s + 2. ParseBinOpRHS strtod n ExprPrec LHS s = Some r)
   \<and> (\<exists>r. \<forall>n\<ge>3 * tokm s + 2. ParseExpression strtod n s = Some r)
   \<and> (fst (GetTokPrecedence s) < ExprPrec \<longrightarrow>
        ParseBinOpRHS strtod (Suc k) ExprPrec LHS s = Some (Some LHS, snd (GetTokPrecedence s)))
   \<and> (ParseBinOpRHS strtod k ExprPrec LHS s = Some (r, s1) \<longrightarrow> tokm s1 \<le> tokm s)
   \<and> (ParseBinOpRHS strtod k ExprPrec LHS s = Some (Some e, s1)
        \<and> \<not> fst (GetTokPrecedence s) < ExprPrec \<longrightarrow> tokm s1 < tokm s)"
proof -
  have a: "ParseBinOpRHS strtod (Suc k) ExprPrec LHS s = Some (Some LHS, snd (GetTokPrecedence s))"
    if "fst (GetTokPrecedence s) < ExprPrec"
    using that by (simp add: split_def)
  show ?thesis
    using a ParseBinOpRHS_result_exists [of s strtod ExprPrec LHS]
      ParseExpression_result_exists [of s strtod]
      ParseBinOpRHS_tokm_le [of strtod k ExprPrec LHS s r s1]
      ParseBinOpRHS_tokm_less [of strtod k ExprPrec LHS s e s1]
    by blast
qed

theorem ParseBinOpRHS_total_witness:
  "tokm (main_init strtod_decimal ''1+2'') = 3
   \<and> (\<exists>r. ParseExpression strtod_decimal 11 (main_init strtod_decimal ''1+2'') = Some r)
   \<and> (\<exists>r. ParseBinOpRHS strtod_decimal 11 0 (NumberExprAST 7)
             (main_init strtod_decimal ''1+2'') = Some r)
   \<and> fst (GetTokPrecedence (main_init strtod_decimal ''1+2'')) < 0
   \<and> ParseBinOpRHS strtod_decimal (Suc 0) 0 (NumberExprAST 7) (main_init strtod_decimal ''1+2'')
       = Some (Some (NumberExprAST 7), snd (GetTokPrecedence (main_init strtod_decimal ''1+2'')))"
proof -
  let ?s = "main_init strtod_decimal ''1+2''"
  have m: "tokm ?s = 3" by code_simp
  have p: "fst (GetTokPrecedence ?s) < 0" by code_simp
  note t = ParseBinOpRHS_total [of ?s strtod_decimal 0 "NumberExprAST 7" 0]
  from t m have "\<exists>r. \<forall>n\<ge>11. ParseExpression strtod_decimal n ?s = Some r" by simp
  then have a: "\<exists>r. ParseExpression strtod_decimal 11 ?s = Some r" by auto
  from t m have "\<exists>r. \<forall>n\<ge>11. ParseBinOpRHS strtod_decimal n 0 (NumberExprAST 7) ?s = Some r"
    by simp
  then have b: "\<exists>r. ParseBinOpRHS strtod_decimal 11 0 (NumberExprAST 7) ?s = Some r" by auto
  from t p have "ParseBinOpRHS strtod_decimal (Suc 0) 0 (NumberExprAST 7) ?s
       = Some (Some (NumberExprAST 7), snd (GetTokPrecedence ?s))"
    by blast
  with m a b p show ?thesis by blast
qed

text \<open>
  C10. When a parse operation returns a node, the tokens it consumed are one complete
  construct of its kind, closing parenthesis included, and the tokens ahead afterwards,
  beginning with the one in \<open>CurTok\<close>, are exactly those that followed the construct:
  nothing of the construct is left and nothing after it is lost. After an expression
  \<open>CurTok\<close> is not a binary operator. \<open>ParseParenExpr\<close>, \<open>ParseIdentifierExpr\<close>,
  \<open>ParseDefinition\<close> and \<open>ParseExtern\<close> are taken in the states in which the program calls
  them, with \<open>CurTok\<close> on their first token.
\<close>

theorem success_consumes_exactly_the_construct:
  "(ParsePrimary strtod n s = Some (Some e, s1) \<longrightarrow> spans strtod (primary_toks (binops s)) s s1)
   \<and> (CurTok s = of_char CHR ''('' \<and> ParseParenExpr strtod n s = Some (Some e, s1) \<longrightarrow>
        spans strtod (primary_toks (binops s)) s s1)
   \<and> (CurTok s = tok_identifier \<and> ParseIdentifierExpr strtod n s = Some (Some e, s1) \<longrightarrow>
        spans strtod (primary_toks (binops s)) s s1)
   \<and> (ParseExpression strtod n s = Some (Some e, s1) \<longrightarrow>
        spans strtod (expression_toks (binops s)) s s1 \<and> \<not> binops s (CurTok s1))
   \<and> (ParsePrototype strtod s = (Some P, s1) \<longrightarrow> spans strtod prototype_toks s s1)
   \<and> (CurTok s = tok_def \<and> ParseDefinition strtod n s = Some (Some F, s1) \<longrightarrow>
        spans strtod (definition_toks (binops s)) s s1 \<and> \<not> binops s (CurTok s1))
   \<and> (CurTok s = tok_extern \<and> ParseExtern strtod s = (Some P, s1) \<longrightarrow>
        spans strtod extern_toks s s1)
   \<and> (ParseTopLevelExpr strtod n s = Some (Some F, s1) \<longrightarrow>
        spans strtod (expression_toks (binops s)) s s1 \<and> \<not> binops s (CurTok s1))"
  using ParsePrimary_spans [of strtod n s e s1] ParseParenExpr_spans [of s strtod n e s1]
    ParseIdentifierExpr_spans [of s strtod n e s1] ParseExpression_spans [of strtod n s e s1]
    ParsePrototype_spans [of strtod s P s1] ParseDefinition_spans [of s strtod n F s1]
    ParseExtern_spans [of s strtod P s1] ParseTopLevelExpr_spans [of strtod n s F s1]
  by blast


theorem success_consumes_exactly_the_construct_witness:
  "toks strtod_decimal (main_init strtod_decimal ''(1+x)*f(2) ;'') =
     [of_char CHR ''('', tok_number, of_char CHR ''+'', tok_identifier, of_char CHR '')'',
      of_char CHR ''*'', tok_identifier, of_char CHR ''('', tok_number, of_char CHR '')'',
      of_char CHR '';'']
   \<and> outcome (ParseExpression strtod_decimal 20 (main_init strtod_decimal ''(1+x)*f(2) ;'')) =
       Some (Some (BinaryExprAST CHR ''*''
                    (BinaryExprAST CHR ''+'' (NumberExprAST 1) (VariableExprAST ''x''))
                    (CallExprAST ''f'' [NumberExprAST 2])), [], of_char CHR '';'')
   \<and> toks strtod_decimal
         (snd (the (ParseExpression strtod_decimal 20 (main_init strtod_decimal ''(1+x)*f(2) ;''))))
       = [of_char CHR '';'']
   \<and> spans strtod_decimal (expression_toks (binops (main_init strtod_decimal ''(1+x)*f(2) ;'')))
         (main_init strtod_decimal ''(1+x)*f(2) ;'')
         (snd (the (ParseExpression strtod_decimal 20 (main_init strtod_decimal ''(1+x)*f(2) ;''))))"
proof -
  let ?s = "main_init strtod_decimal ''(1+x)*f(2) ;''"
  have a: "toks strtod_decimal ?s =
     [of_char CHR ''('', tok_number, of_char CHR ''+'', tok_identifier, of_char CHR '')'',
      of_char CHR ''*'', tok_identifier, of_char CHR ''('', tok_number, of_char CHR '')'',
      of_char CHR '';'']"
    by code_simp
  have b: "outcome (ParseExpression strtod_decimal 20 ?s) =
       Some (Some (BinaryExprAST CHR ''*''
                    (BinaryExprAST CHR ''+'' (NumberExprAST 1) (VariableExprAST ''x''))
                    (CallExprAST ''f'' [NumberExprAST 2])), [], of_char CHR '';'')"
    by code_simp
  have c: "toks strtod_decimal (snd (the (ParseExpression strtod_decimal 20 ?s))) = [of_char CHR '';'']"
    by code_simp
  from b obtain e s1 where r: "ParseExpression strtod_decimal 20 ?s = Some (Some e, s1)"
    by (auto simp: outcome_def)
  from success_consumes_exactly_the_construct [of strtod_decimal 20 ?s e s1] r
  have "spans strtod_decimal (expression_toks (binops ?s)) ?s s1" by blast
  with r have d: "spans strtod_decimal (expression_toks (binops ?s)) ?s
      (snd (the (ParseExpression strtod_decimal 20 ?s)))"
    by simp
  from a b c d show ?thesis by blast
qed

end
